theory Spec2Isabelle
  imports Complex_Main "HOL-Library.Word"
begin

section \<open>IEEE 754 binary64 arithmetic\<close>

text \<open>
  The program computes with C++ \<^verbatim>\<open>double\<close>. The values of that type are modelled as
  a datatype: not-a-number, the two infinities, and the finite values \<open>Fin s m e\<close> that
  stand for \<open>(-1)^s * m * 2^e\<close> (\<open>s\<close> is the sign bit). Every operation rounds its exact
  result once, to the nearest representable value with ties to the even significand,
  which is the default rounding mode; contraction of a multiplication and an addition
  into one fused operation is not modelled. All payloads of not-a-number are one value.
  A finite result is always delivered in its canonical form: a significand below
  \<open>2^53\<close>, an exponent from \<open>-1074\<close> to \<open>971\<close>, and a significand of at least \<open>2^52\<close>
  unless the exponent is \<open>-1074\<close> (zero and the subnormal numbers).
\<close>

datatype double = NaN | Inf bool | Fin bool nat int

function bitlen :: "nat \<Rightarrow> nat" where
  "bitlen n = (if n = 0 then 0 else Suc (bitlen (n div 2)))"
  by pat_completeness auto
termination
  by (relation "measure id") auto

declare bitlen.simps [simp del]

text \<open>\<open>rne_shift m k\<close> is \<open>m / 2^k\<close> rounded to the nearest integer, ties to even.\<close>

definition rne_shift :: "nat \<Rightarrow> nat \<Rightarrow> nat" where
  "rne_shift m k =
     (let q = m div 2 ^ k; r = m mod 2 ^ k; h = 2 ^ (k - 1)
      in if h < r \<or> (r = h \<and> odd q) then q + 1 else q)"

definition pack :: "bool \<Rightarrow> nat \<Rightarrow> int \<Rightarrow> double" where
  "pack s m e = (if 971 < e then Inf s else Fin s m e)"

text \<open>
  Rounding the exact value \<open>m * 2^e\<close>: \<open>quantum m e\<close> is the number of low bits that
  do not fit (53 bits of precision, and no exponent below \<open>-1074\<close>), \<open>round_mant\<close> the
  significand once they are rounded away.
\<close>

definition quantum :: "nat \<Rightarrow> int \<Rightarrow> int" where
  "quantum m e = max (int (bitlen m) - 53) (- 1074 - e)"

definition round_mant :: "nat \<Rightarrow> int \<Rightarrow> nat" where
  "round_mant m sh = (if sh \<le> 0 then m * 2 ^ nat (- sh) else rne_shift m (nat sh))"

text \<open>\<open>round_fin s m e\<close> is the double nearest to the exact value \<open>(-1)^s * m * 2^e\<close>.\<close>

definition round_fin :: "bool \<Rightarrow> nat \<Rightarrow> int \<Rightarrow> double" where
  "round_fin s m e =
     (if m = 0 then Fin s 0 (- 1074)
      else
        let sh = quantum m e; q = round_mant m sh
        in if q = 2 ^ 53 then pack s (2 ^ 52) (e + sh + 1)
           else pack s q (e + sh))"

text \<open>
  \<open>round_quot s a b e\<close> is the double nearest to \<open>(-1)^s * (a / b) * 2^e\<close> for \<open>b > 0\<close>:
  the quotient is taken to more than 64 bits and the rest of it is kept as one sticky
  bit below them, which rounds like the exact quotient.
\<close>

definition round_quot :: "bool \<Rightarrow> nat \<Rightarrow> nat \<Rightarrow> int \<Rightarrow> double" where
  "round_quot s a b e =
     (let k = bitlen b + 64; n = a * 2 ^ k; q = n div b; r = n mod b
      in round_fin s (2 * q + (if r = 0 then 0 else 1)) (e - int k - 1))"

definition sval :: "bool \<Rightarrow> nat \<Rightarrow> int" where
  "sval s m = (if s then - int m else int m)"

fun dneg :: "double \<Rightarrow> double" where
  "dneg NaN = NaN"
| "dneg (Inf s) = Inf (\<not> s)"
| "dneg (Fin s m e) = Fin (\<not> s) m e"

text \<open>
  In \<open>dadd\<close> the sum of two zeros keeps a sign that both have, a zero added to another
  value leaves that value, and an exact sum of zero from two other values is \<open>+0\<close>; all
  other sums are the exact sum of the two aligned significands, rounded.
\<close>

fun dadd :: "double \<Rightarrow> double \<Rightarrow> double" where
  "dadd NaN y = NaN"
| "dadd (Inf s) NaN = NaN"
| "dadd (Inf s) (Inf t) = (if s = t then Inf s else NaN)"
| "dadd (Inf s) (Fin t m e) = Inf s"
| "dadd (Fin s m e) NaN = NaN"
| "dadd (Fin s m e) (Inf t) = Inf t"
| "dadd (Fin s1 m1 e1) (Fin s2 m2 e2) =
     (if m1 = 0 \<and> m2 = 0 then Fin (s1 \<and> s2) 0 (- 1074)
      else if m1 = 0 then round_fin s2 m2 e2
      else if m2 = 0 then round_fin s1 m1 e1
      else
        let e = min e1 e2;
            z = sval s1 m1 * 2 ^ nat (e1 - e) + sval s2 m2 * 2 ^ nat (e2 - e)
        in if z = 0 then Fin False 0 (- 1074)
           else round_fin (z < 0) (nat \<bar>z\<bar>) e)"

definition dsub :: "double \<Rightarrow> double \<Rightarrow> double" where
  "dsub x y = dadd x (dneg y)"

fun dmul :: "double \<Rightarrow> double \<Rightarrow> double" where
  "dmul NaN y = NaN"
| "dmul (Inf s) NaN = NaN"
| "dmul (Inf s) (Inf t) = Inf (s \<noteq> t)"
| "dmul (Inf s) (Fin t m e) = (if m = 0 then NaN else Inf (s \<noteq> t))"
| "dmul (Fin s m e) NaN = NaN"
| "dmul (Fin s m e) (Inf t) = (if m = 0 then NaN else Inf (s \<noteq> t))"
| "dmul (Fin s1 m1 e1) (Fin s2 m2 e2) = round_fin (s1 \<noteq> s2) (m1 * m2) (e1 + e2)"

fun ddiv :: "double \<Rightarrow> double \<Rightarrow> double" where
  "ddiv NaN y = NaN"
| "ddiv (Inf s) NaN = NaN"
| "ddiv (Inf s) (Inf t) = NaN"
| "ddiv (Inf s) (Fin t m e) = Inf (s \<noteq> t)"
| "ddiv (Fin s m e) NaN = NaN"
| "ddiv (Fin s m e) (Inf t) = Fin (s \<noteq> t) 0 (- 1074)"
| "ddiv (Fin s1 m1 e1) (Fin s2 m2 e2) =
     (if m2 = 0 then (if m1 = 0 then NaN else Inf (s1 \<noteq> s2))
      else round_quot (s1 \<noteq> s2) m1 m2 (e1 - e2))"

text \<open>Comparisons: every comparison with not-a-number is false, and \<open>-0 = +0\<close>.\<close>

definition fin_le :: "bool \<Rightarrow> nat \<Rightarrow> int \<Rightarrow> bool \<Rightarrow> nat \<Rightarrow> int \<Rightarrow> bool" where
  "fin_le s1 m1 e1 s2 m2 e2 =
     (let e = min e1 e2
      in sval s1 m1 * 2 ^ nat (e1 - e) \<le> sval s2 m2 * 2 ^ nat (e2 - e))"

definition fin_lt :: "bool \<Rightarrow> nat \<Rightarrow> int \<Rightarrow> bool \<Rightarrow> nat \<Rightarrow> int \<Rightarrow> bool" where
  "fin_lt s1 m1 e1 s2 m2 e2 =
     (let e = min e1 e2
      in sval s1 m1 * 2 ^ nat (e1 - e) < sval s2 m2 * 2 ^ nat (e2 - e))"

fun dle :: "double \<Rightarrow> double \<Rightarrow> bool" where
  "dle NaN y = False"
| "dle (Inf s) NaN = False"
| "dle (Inf s) (Inf t) = (s \<or> \<not> t)"
| "dle (Inf s) (Fin t m e) = s"
| "dle (Fin s m e) NaN = False"
| "dle (Fin s m e) (Inf t) = (\<not> t)"
| "dle (Fin s1 m1 e1) (Fin s2 m2 e2) = fin_le s1 m1 e1 s2 m2 e2"

fun dlt :: "double \<Rightarrow> double \<Rightarrow> bool" where
  "dlt NaN y = False"
| "dlt (Inf s) NaN = False"
| "dlt (Inf s) (Inf t) = (s \<and> \<not> t)"
| "dlt (Inf s) (Fin t m e) = s"
| "dlt (Fin s m e) NaN = False"
| "dlt (Fin s m e) (Inf t) = (\<not> t)"
| "dlt (Fin s1 m1 e1) (Fin s2 m2 e2) = fin_lt s1 m1 e1 s2 m2 e2"

definition dge :: "double \<Rightarrow> double \<Rightarrow> bool" where
  "dge x y = dle y x"

definition dgt :: "double \<Rightarrow> double \<Rightarrow> bool" where
  "dgt x y = dlt y x"

text \<open>Conversion of an integer, and the value of a decimal literal \<open>n / d\<close>.\<close>

definition double_of_int :: "int \<Rightarrow> double" where
  "double_of_int i = round_fin (i < 0) (nat \<bar>i\<bar>) 0"

definition dlit :: "int \<Rightarrow> nat \<Rightarrow> double" where
  "dlit n d = round_quot (n < 0) (nat \<bar>n\<bar>) d 0"


section \<open>The simulation engine\<close>

subsection \<open>Constants and data\<close>

definition MAX_DT_SECONDS :: double where
  "MAX_DT_SECONDS = dlit 5 100"

definition FIXED_DT_SECONDS :: double where
  "FIXED_DT_SECONDS = dlit 1 100"

definition MAX_SIMULATION_STEPS_PER_FRAME :: nat where
  "MAX_SIMULATION_STEPS_PER_FRAME = 5"

definition MAX_COMMAND_QUEUE_SIZE :: nat where
  "MAX_COMMAND_QUEUE_SIZE = 32"

definition MAX_COMMANDS_PER_STEP :: nat where
  "MAX_COMMANDS_PER_STEP = 4"

text \<open>The literals \<^verbatim>\<open>0.0\<close> and \<^verbatim>\<open>1.0\<close>.\<close>

definition dzero :: double where
  "dzero = dlit 0 1"

definition d_one :: double where
  "d_one = dlit 1 1"

datatype CommandType = Accelerate | Stop

record Command =
  cmd_type :: CommandType
  cmd_value :: double

record SystemState =
  position :: double
  velocity :: double
  valid :: bool

subsection \<open>The operations on the state and on the queue\<close>

definition updateSystem :: "SystemState \<Rightarrow> double \<Rightarrow> SystemState" where
  "updateSystem state dtSeconds =
     (if \<not> valid state then state
      else
        let state1 = state\<lparr>position := dadd (position state) (dmul (velocity state) dtSeconds)\<rparr>
        in if dlt (position state1) dzero
           then state1\<lparr>position := dzero, velocity := dzero, valid := False\<rparr>
           else state1)"

text \<open>
  The global \<^verbatim>\<open>commandQueue\<close> is a list with its front at the head; the function
  returns the result of the call and the queue after it.
\<close>

definition enqueueCommand :: "Command \<Rightarrow> Command list \<Rightarrow> bool \<times> Command list" where
  "enqueueCommand cmd commandQueue =
     (if MAX_COMMAND_QUEUE_SIZE \<le> length commandQueue then (False, commandQueue)
      else (True, commandQueue @ [cmd]))"

definition applyCommand :: "SystemState \<Rightarrow> Command \<Rightarrow> SystemState" where
  "applyCommand state cmd =
     (if \<not> valid state then state
      else case cmd_type cmd of
             Accelerate \<Rightarrow> state\<lparr>velocity := dadd (velocity state) (cmd_value cmd)\<rparr>
           | Stop \<Rightarrow> state\<lparr>velocity := dzero\<rparr>)"

definition interpolateState :: "SystemState \<Rightarrow> SystemState \<Rightarrow> double \<Rightarrow> SystemState" where
  "interpolateState prev cur alpha =
     cur\<lparr>position := dadd (dmul (position prev) (dsub d_one alpha)) (dmul (position cur) alpha),
          velocity := dadd (dmul (velocity prev) (dsub d_one alpha)) (dmul (velocity cur) alpha)\<rparr>"

subsection \<open>The main loop\<close>

text \<open>
  The variables of \<^verbatim>\<open>main\<close> and the global queue. \<^verbatim>\<open>previousState\<close> is declared
  without an initialiser: its first value is whatever the caller of the model passes.
\<close>

record MainState =
  currentState :: SystemState
  previousState :: SystemState
  lastTickMs :: "64 word"
  timeAccumulator :: double
  commandQueue :: "Command list"

text \<open>The innermost loop: up to \<^verbatim>\<open>MAX_COMMANDS_PER_STEP\<close> commands leave the front of the queue.\<close>

fun drainCommands :: "nat \<Rightarrow> SystemState \<Rightarrow> Command list \<Rightarrow> SystemState \<times> Command list" where
  "drainCommands processed state [] = (state, [])"
| "drainCommands processed state (cmd # q) =
     (if processed < MAX_COMMANDS_PER_STEP
      then drainCommands (processed + 1) (applyCommand state cmd) q
      else (state, cmd # q))"

text \<open>The body of the simulation loop: one tick.\<close>

definition simulationStep :: "MainState \<Rightarrow> MainState" where
  "simulationStep m =
     (let (state, q) = drainCommands 0 (currentState m) (commandQueue m)
      in m\<lparr>previousState := currentState m,
           currentState := updateSystem state FIXED_DT_SECONDS,
           commandQueue := q,
           timeAccumulator := dsub (timeAccumulator m) FIXED_DT_SECONDS\<rparr>)"

function simulationLoop :: "nat \<Rightarrow> MainState \<Rightarrow> nat \<times> MainState" where
  "simulationLoop stepsThisFrame m =
     (if dge (timeAccumulator m) FIXED_DT_SECONDS \<and> stepsThisFrame < MAX_SIMULATION_STEPS_PER_FRAME
      then simulationLoop (stepsThisFrame + 1) (simulationStep m)
      else (stepsThisFrame, m))"
  by pat_completeness auto
termination
  by (relation "measure (\<lambda>(stepsThisFrame, m). MAX_SIMULATION_STEPS_PER_FRAME - stepsThisFrame)") auto

declare simulationLoop.simps [simp del]

text \<open>
  Layer 1: the elapsed milliseconds. The subtraction is one of \<^verbatim>\<open>int64_t\<close>: where
  the difference is not a 64-bit signed value the program has no defined result, which
  is \<open>None\<close> here. Then the conversion to seconds, and layer 2, the clamp.
\<close>

definition elapsedMs :: "64 word \<Rightarrow> 64 word \<Rightarrow> 64 word option" where
  "elapsedMs now lastTick =
     (let d = sint now - sint lastTick
      in if - (2 ^ 63) \<le> d \<and> d < 2 ^ 63 then Some (now - lastTick) else None)"

definition elapsedSeconds :: "64 word \<Rightarrow> double" where
  "elapsedSeconds dtMs = ddiv (double_of_int (sint dtMs)) (dlit 1000 1)"

definition clampDt :: "double \<Rightarrow> double" where
  "clampDt dtSeconds = (if dgt dtSeconds MAX_DT_SECONDS then MAX_DT_SECONDS else dtSeconds)"

text \<open>Layer 3: the accumulation, the ticks, and the reset when the cap was reached.\<close>

definition runTicks :: "double \<Rightarrow> MainState \<Rightarrow> nat \<times> MainState" where
  "runTicks dtSeconds m =
     (let (stepsThisFrame, m') =
            simulationLoop 0 (m\<lparr>timeAccumulator := dadd (timeAccumulator m) dtSeconds\<rparr>)
      in if stepsThisFrame = MAX_SIMULATION_STEPS_PER_FRAME
         then (stepsThisFrame, m'\<lparr>timeAccumulator := dzero\<rparr>)
         else (stepsThisFrame, m'))"

text \<open>The input burst: each command goes through \<open>enqueueCommand\<close>, its result unused.\<close>

fun enqueueAll :: "Command list \<Rightarrow> Command list \<Rightarrow> Command list" where
  "enqueueAll [] q = q"
| "enqueueAll (cmd # cmds) q = enqueueAll cmds (snd (enqueueCommand cmd q))"

text \<open>Layer 4: what the frame shows.\<close>

definition present :: "MainState \<Rightarrow> SystemState" where
  "present m =
     interpolateState (previousState m) (currentState m)
       (ddiv (timeAccumulator m) FIXED_DT_SECONDS)"

text \<open>
  A frame from the clamped delta on, with the commands that the input side offers in
  it, and the frame of \<^verbatim>\<open>main\<close>: the clock reading is its input, the burst is ten
  \<^verbatim>\<open>Accelerate 0.1\<close>, and the output is the printed line.
\<close>

definition frameStep :: "double \<Rightarrow> Command list \<Rightarrow> MainState \<Rightarrow> MainState" where
  "frameStep dtSeconds cmds m =
     (let m' = snd (runTicks dtSeconds m)
      in m'\<lparr>commandQueue := enqueueAll cmds (commandQueue m')\<rparr>)"

definition inputBurst :: "Command list" where
  "inputBurst = replicate 10 \<lparr>cmd_type = Accelerate, cmd_value = dlit 1 10\<rparr>"

definition mainFrame :: "64 word \<Rightarrow> MainState \<Rightarrow> MainState option" where
  "mainFrame now m =
     (case elapsedMs now (lastTickMs m) of
        None \<Rightarrow> None
      | Some dtMs \<Rightarrow>
          Some (frameStep (clampDt (elapsedSeconds dtMs)) inputBurst (m\<lparr>lastTickMs := now\<rparr>)))"

definition printed :: "64 word \<Rightarrow> MainState \<Rightarrow> (64 word \<times> 64 word \<times> SystemState) option" where
  "printed now m =
     (case mainFrame now m of
        None \<Rightarrow> None
      | Some m' \<Rightarrow> Some (now, now - lastTickMs m, present m'))"

definition initialState :: SystemState where
  "initialState = \<lparr>position = dzero, velocity = d_one, valid = True\<rparr>"

definition initMain :: "SystemState \<Rightarrow> 64 word \<Rightarrow> MainState" where
  "initMain indeterminate t0 =
     \<lparr>currentState = initialState, previousState = indeterminate, lastTickMs = t0,
      timeAccumulator = dzero, commandQueue = []\<rparr>"

text \<open>
  The loop of \<^verbatim>\<open>main\<close> never ends by itself; \<open>mainLoop\<close> runs it over the successive
  readings of the clock, and \<open>runFrames\<close> runs frames over given clamped deltas and
  offered commands.
\<close>

fun mainLoop :: "64 word list \<Rightarrow> MainState \<Rightarrow> MainState option" where
  "mainLoop [] m = Some m"
| "mainLoop (now # clock) m =
     (case mainFrame now m of None \<Rightarrow> None | Some m' \<Rightarrow> mainLoop clock m')"

fun runFrames :: "(double \<times> Command list) list \<Rightarrow> MainState \<Rightarrow> MainState" where
  "runFrames [] m = m"
| "runFrames ((dtSeconds, cmds) # inputs) m = runFrames inputs (frameStep dtSeconds cmds m)"

subsection \<open>What a run goes through\<close>

text \<open>
  The state after each tick of the simulation loop and the values that the accumulator
  takes in it, collected along the same recursion as \<open>simulationLoop\<close>.
\<close>

function tickStates :: "nat \<Rightarrow> MainState \<Rightarrow> SystemState list" where
  "tickStates stepsThisFrame m =
     (if dge (timeAccumulator m) FIXED_DT_SECONDS \<and> stepsThisFrame < MAX_SIMULATION_STEPS_PER_FRAME
      then currentState (simulationStep m) # tickStates (stepsThisFrame + 1) (simulationStep m)
      else [])"
  by pat_completeness auto
termination
  by (relation "measure (\<lambda>(stepsThisFrame, m). MAX_SIMULATION_STEPS_PER_FRAME - stepsThisFrame)") auto

declare tickStates.simps [simp del]

function accumulatorValues :: "nat \<Rightarrow> MainState \<Rightarrow> double list" where
  "accumulatorValues stepsThisFrame m =
     timeAccumulator m #
     (if dge (timeAccumulator m) FIXED_DT_SECONDS \<and> stepsThisFrame < MAX_SIMULATION_STEPS_PER_FRAME
      then accumulatorValues (stepsThisFrame + 1) (simulationStep m)
      else [])"
  by pat_completeness auto
termination
  by (relation "measure (\<lambda>(stepsThisFrame, m). MAX_SIMULATION_STEPS_PER_FRAME - stepsThisFrame)") auto

declare accumulatorValues.simps [simp del]

text \<open>
  Per frame: the accumulator after the addition, after each tick, and after the reset;
  over a run: the states after each tick, in order.
\<close>

definition frameAccumulator :: "double \<Rightarrow> MainState \<Rightarrow> double list" where
  "frameAccumulator dtSeconds m =
     accumulatorValues 0 (m\<lparr>timeAccumulator := dadd (timeAccumulator m) dtSeconds\<rparr>)
       @ [timeAccumulator (snd (runTicks dtSeconds m))]"

fun runTickStates :: "(double \<times> Command list) list \<Rightarrow> MainState \<Rightarrow> SystemState list" where
  "runTickStates [] m = []"
| "runTickStates ((dtSeconds, cmds) # inputs) m =
     tickStates 0 (m\<lparr>timeAccumulator := dadd (timeAccumulator m) dtSeconds\<rparr>)
       @ runTickStates inputs (frameStep dtSeconds cmds m)"

text \<open>
  The time that the cap of a frame pays for: \<^verbatim>\<open>MAX_SIMULATION_STEPS_PER_FRAME\<close> ticks
  of \<^verbatim>\<open>FIXED_DT_SECONDS\<close>, as a double.
\<close>

definition capSeconds :: double where
  "capSeconds = dmul (double_of_int (int MAX_SIMULATION_STEPS_PER_FRAME)) FIXED_DT_SECONDS"

text \<open>The queue after a list of calls of \<open>enqueueCommand\<close>, with the result of each call.\<close>

fun enqueueResults :: "Command list \<Rightarrow> Command list \<Rightarrow> bool list \<times> Command list" where
  "enqueueResults [] q = ([], q)"
| "enqueueResults (cmd # cmds) q =
     (let (ok, q') = enqueueCommand cmd q; (oks, q'') = enqueueResults cmds q'
      in (ok # oks, q''))"

text \<open>
  Two states of the main loop have the same simulation when they differ at most in
  \<^verbatim>\<open>previousState\<close> and \<^verbatim>\<open>lastTickMs\<close>.
\<close>

definition sameSimulation :: "MainState \<Rightarrow> MainState \<Rightarrow> bool" where
  "sameSimulation m1 m2 \<longleftrightarrow>
     currentState m1 = currentState m2 \<and> timeAccumulator m1 = timeAccumulator m2 \<and>
     commandQueue m1 = commandQueue m2"

text \<open>
  The only assignment of \<^verbatim>\<open>valid = false\<close> sets the velocity to 0 with it: a state is
  \<open>stoppedIfInvalid\<close> when it is valid or has velocity 0.
\<close>

definition stoppedIfInvalid :: "SystemState \<Rightarrow> bool" where
  "stoppedIfInvalid state \<longleftrightarrow> valid state \<or> velocity state = dzero"

subsection \<open>The numbers that doubles stand for\<close>

text \<open>
  \<open>valof\<close> is the real number of a finite double, \<open>is_double\<close> says that a finite value
  is in the canonical form of the format, and \<open>rne\<close> rounds a real number to the nearest
  integer, ties to even.
\<close>

definition valof :: "double \<Rightarrow> real" where
  "valof x = (case x of Fin s m e \<Rightarrow> of_int (sval s m) * 2 powi e | _ \<Rightarrow> 0)"

definition is_double :: "double \<Rightarrow> bool" where
  "is_double x =
     (case x of
        Fin s m e \<Rightarrow> m < 2 ^ 53 \<and> - 1074 \<le> e \<and> e \<le> 971 \<and> (2 ^ 52 \<le> m \<or> e = - 1074)
      | _ \<Rightarrow> True)"

definition rne :: "real \<Rightarrow> int" where
  "rne x =
     (let f = \<lfloor>x\<rfloor>
      in if x - of_int f < 1 / 2 then f
         else if 1 / 2 < x - of_int f then f + 1
         else if even f then f else f + 1)"

text \<open>The real number that \<open>round_fin\<close> rounds \<open>m * 2^e\<close> to, before the check of the range.\<close>

definition round_value :: "nat \<Rightarrow> int \<Rightarrow> real" where
  "round_value m e = real (round_mant m (quantum m e)) * 2 powi (e + quantum m e)"

section \<open>Evaluation\<close>

text \<open>
  The bit length of a numeral follows its binary digits, and each literal of the
  program has one value.
\<close>

lemma bitlen_0: "bitlen 0 = 0"
  by (simp add: bitlen.simps)

lemma bitlen_1: "bitlen (Suc 0) = 1"
  by (simp add: bitlen.simps)

lemma bitlen_Bit0: "bitlen (numeral (Num.Bit0 k)) = Suc (bitlen (numeral k))"
  by (subst bitlen.simps) simp

lemma bitlen_Bit1: "bitlen (numeral (Num.Bit1 k)) = Suc (bitlen (numeral k))"
  by (subst bitlen.simps) simp

lemmas bitlen_eval = bitlen_0 bitlen_1 bitlen_Bit0 bitlen_Bit1

lemmas round_eval = round_fin_def quantum_def round_mant_def rne_shift_def pack_def bitlen_eval

lemmas arith_eval = dsub_def sval_def fin_le_def fin_lt_def dge_def dgt_def round_eval

lemmas dlit_eval = dlit_def round_quot_def round_eval

lemma FIXED_DT_SECONDS_eq: "FIXED_DT_SECONDS = Fin False 5764607523034235 (- 59)"
  by (simp add: FIXED_DT_SECONDS_def dlit_eval)

lemma MAX_DT_SECONDS_eq: "MAX_DT_SECONDS = Fin False 7205759403792794 (- 57)"
  by (simp add: MAX_DT_SECONDS_def dlit_eval)

lemma dzero_eq: "dzero = Fin False 0 (- 1074)"
  by (simp add: dzero_def dlit_eval)

lemma d_one_eq: "d_one = Fin False 4503599627370496 (- 52)"
  by (simp add: d_one_def dlit_eval)

lemma tenth_eq: "dlit 1 10 = Fin False 7205759403792794 (- 56)"
  by (simp add: dlit_eval)

lemma thousand_eq: "dlit 1000 (Suc 0) = Fin False 8796093022208000 (- 43)"
  by (simp add: dlit_eval)

lemma capSeconds_eq: "capSeconds = Fin False 7205759403792794 (- 57)"
  by (simp add: capSeconds_def MAX_SIMULATION_STEPS_PER_FRAME_def double_of_int_def
      FIXED_DT_SECONDS_eq round_eval)

lemmas lit_eval = FIXED_DT_SECONDS_eq MAX_DT_SECONDS_eq dzero_eq d_one_eq tenth_eq thousand_eq

section \<open>The loops\<close>

lemma simulationLoop_step:
  "dge (timeAccumulator m) FIXED_DT_SECONDS \<Longrightarrow> n < MAX_SIMULATION_STEPS_PER_FRAME \<Longrightarrow>
   simulationLoop n m = simulationLoop (Suc n) (simulationStep m)"
  by (subst simulationLoop.simps) simp

lemma simulationLoop_stop:
  "\<not> (dge (timeAccumulator m) FIXED_DT_SECONDS \<and> n < MAX_SIMULATION_STEPS_PER_FRAME) \<Longrightarrow>
   simulationLoop n m = (n, m)"
  by (auto simp: simulationLoop.simps[of n m])

lemma simulationLoop_invariant:
  assumes "P m"
    and step: "\<And>m. P m \<Longrightarrow> dge (timeAccumulator m) FIXED_DT_SECONDS \<Longrightarrow> P (simulationStep m)"
  shows "P (snd (simulationLoop n m))"
  using assms(1)
proof (induction n m rule: simulationLoop.induct)
  case (1 n m)
  show ?case
  proof (cases "dge (timeAccumulator m) FIXED_DT_SECONDS \<and> n < MAX_SIMULATION_STEPS_PER_FRAME")
    case True
    have "P (snd (simulationLoop (n + 1) (simulationStep m)))"
      using "1.IH" True step[OF "1.prems"] by simp
    then show ?thesis using True by (simp add: simulationLoop_step)
  next
    case False
    then show ?thesis using "1.prems" by (simp add: simulationLoop_stop)
  qed
qed

lemma currentState_runTicks:
  "currentState (snd (runTicks dt m)) =
   currentState (snd (simulationLoop 0 (m\<lparr>timeAccumulator := dadd (timeAccumulator m) dt\<rparr>)))"
  by (simp add: runTicks_def split: prod.splits)

lemmas prog_eval = simulationLoop_step simulationLoop_stop MAX_SIMULATION_STEPS_PER_FRAME_def
  MAX_COMMANDS_PER_STEP_def MAX_COMMAND_QUEUE_SIZE_def
  simulationStep_def updateSystem_def applyCommand_def enqueueCommand_def
  frameStep_def runTicks_def clampDt_def elapsedSeconds_def double_of_int_def round_quot_def
  interpolateState_def present_def

section \<open>Terminal invalidity\<close>

lemma drainCommands_invalid:
  "\<not> valid state \<Longrightarrow>
   drainCommands n state q = (state, drop (MAX_COMMANDS_PER_STEP - n) q)"
  by (induction n state q rule: drainCommands.induct)
     (auto simp: applyCommand_def Suc_diff_le drop_Cons')

lemma simulationStep_invalid:
  "\<not> valid (currentState m) \<Longrightarrow> currentState (simulationStep m) = currentState m"
  by (simp add: simulationStep_def drainCommands_invalid updateSystem_def)

lemma simulationLoop_invalid:
  assumes "\<not> valid (currentState m)"
  shows "currentState (snd (simulationLoop n m)) = currentState m"
  using simulationLoop_invariant[where P = "\<lambda>x. currentState x = currentState m" and m = m and n = n]
    assms by (simp add: simulationStep_invalid)

lemma frameStep_invalid:
  "\<not> valid (currentState m) \<Longrightarrow> currentState (frameStep dt cmds m) = currentState m"
  using simulationLoop_invalid[of "m\<lparr>timeAccumulator := dadd (timeAccumulator m) dt\<rparr>" 0]
  by (simp add: frameStep_def currentState_runTicks Let_def)

lemma mainLoop_invalid:
  "\<not> valid (currentState m) \<Longrightarrow> mainLoop clock m = Some m' \<Longrightarrow> currentState m' = currentState m"
proof (induction clock arbitrary: m)
  case Nil
  then show ?case by simp
next
  case (Cons now clock)
  from Cons.prems(2) obtain dtMs where
    run: "mainLoop clock (frameStep (clampDt (elapsedSeconds dtMs)) inputBurst (m\<lparr>lastTickMs := now\<rparr>)) = Some m'"
    by (auto simp: mainFrame_def split: option.splits)
  let ?m1 = "frameStep (clampDt (elapsedSeconds dtMs)) inputBurst (m\<lparr>lastTickMs := now\<rparr>)"
  have eq: "currentState ?m1 = currentState m"
    using frameStep_invalid[of "m\<lparr>lastTickMs := now\<rparr>"] Cons.prems(1) by simp
  then have "\<not> valid (currentState ?m1)"
    using Cons.prems(1) by simp
  from Cons.IH[OF this run] eq show ?case by simp
qed

text \<open>
  C4. On a state that is not valid, \<open>updateSystem\<close> and \<open>applyCommand\<close> change nothing,
  for every delta and every command; and no run of the main loop that starts with such
  a current state ever has another one.
\<close>

theorem terminal_invalidity:
  "\<not> valid state \<Longrightarrow>
     updateSystem state dt = state \<and> applyCommand state cmd = state \<and>
     (\<forall>m clock m'. currentState m = state \<and> mainLoop clock m = Some m' \<longrightarrow> currentState m' = state)"
  using mainLoop_invalid by (auto simp: updateSystem_def applyCommand_def)

lemma elapsedMs_16: "elapsedMs 1016 1000 = Some 16"
  by (simp add: elapsedMs_def)

theorem terminal_invalidity_witness:
  "\<not> valid \<lparr>position = dzero, velocity = dzero, valid = False\<rparr> \<and>
   updateSystem \<lparr>position = dzero, velocity = dzero, valid = False\<rparr> FIXED_DT_SECONDS =
     \<lparr>position = dzero, velocity = dzero, valid = False\<rparr> \<and>
   applyCommand \<lparr>position = dzero, velocity = dzero, valid = False\<rparr>
       \<lparr>cmd_type = Accelerate, cmd_value = dlit 1 10\<rparr> =
     \<lparr>position = dzero, velocity = dzero, valid = False\<rparr> \<and>
   (\<exists>m'. mainLoop [1016]
            \<lparr>currentState = \<lparr>position = dzero, velocity = dzero, valid = False\<rparr>,
             previousState = initialState, lastTickMs = 1000,
             timeAccumulator = dzero, commandQueue = []\<rparr> = Some m' \<and>
         currentState m' = \<lparr>position = dzero, velocity = dzero, valid = False\<rparr>)"
proof -
  let ?s = "\<lparr>position = dzero, velocity = dzero, valid = False\<rparr>"
  let ?m = "\<lparr>currentState = ?s, previousState = initialState, lastTickMs = 1000,
             timeAccumulator = dzero, commandQueue = []\<rparr>"
  have inv: "\<not> valid ?s" by simp
  note t = terminal_invalidity[OF inv, of FIXED_DT_SECONDS "\<lparr>cmd_type = Accelerate, cmd_value = dlit 1 10\<rparr>"]
  have "mainLoop [1016] ?m \<noteq> None"
    by (simp add: mainFrame_def elapsedMs_16)
  then obtain m' where run: "mainLoop [1016] ?m = Some m'"
    by blast
  have cur: "currentState ?m = ?s" by simp
  from t cur run have "currentState m' = ?s" by blast
  with t run inv show ?thesis by blast
qed

section \<open>The integrator at the boundary\<close>

lemma two_hundredths_eq: "dlit 2 100 = Fin False 5764607523034235 (- 58)"
  by (simp add: dlit_eval)

lemma minus_five_eq: "double_of_int (- 5) = Fin True 5629499534213120 (- 50)"
  by (simp add: double_of_int_def round_eval)

lemma hundredth_eq: "dlit 1 100 = Fin False 5764607523034235 (- 59)"
  by (simp add: dlit_eval)

lemma scenario_D_raw:
  "dadd (dlit 2 100) (dmul (double_of_int (- 5)) (dlit 1 100)) = Fin True 8646911284551353 (- 58)"
  by (simp add: two_hundredths_eq minus_five_eq hundredth_eq arith_eval)

text \<open>
  C5. From a valid state whose integrated position \<open>position + velocity * dt\<close> is below
  zero, \<open>updateSystem\<close> gives position 0, velocity 0 and not valid; and so it does from
  position 0.02 with velocity -5 in one tick of 0.01.
\<close>

theorem boundary_rule:
  "(valid state \<and> dlt (dadd (position state) (dmul (velocity state) dt)) dzero \<longrightarrow>
      updateSystem state dt = \<lparr>position = dzero, velocity = dzero, valid = False\<rparr>) \<and>
   updateSystem \<lparr>position = dlit 2 100, velocity = double_of_int (- 5), valid = True\<rparr> (dlit 1 100) =
     \<lparr>position = dzero, velocity = dzero, valid = False\<rparr>"
  by (simp add: updateSystem_def Let_def scenario_D_raw dzero_eq fin_lt_def sval_def)

theorem boundary_rule_witness:
  "valid \<lparr>position = dlit 2 100, velocity = double_of_int (- 5), valid = True\<rparr> \<and>
   dlt (dadd (dlit 2 100) (dmul (double_of_int (- 5)) FIXED_DT_SECONDS)) dzero \<and>
   updateSystem \<lparr>position = dlit 2 100, velocity = double_of_int (- 5), valid = True\<rparr> FIXED_DT_SECONDS =
     \<lparr>position = dzero, velocity = dzero, valid = False\<rparr>"
proof -
  let ?s = "\<lparr>position = dlit 2 100, velocity = double_of_int (- 5), valid = True\<rparr>"
  have neg: "dlt (dadd (dlit 2 100) (dmul (double_of_int (- 5)) FIXED_DT_SECONDS)) dzero"
    using scenario_D_raw by (simp add: FIXED_DT_SECONDS_def dzero_eq fin_lt_def sval_def)
  then have "valid ?s \<and> dlt (dadd (position ?s) (dmul (velocity ?s) FIXED_DT_SECONDS)) dzero"
    by simp
  with boundary_rule[of ?s FIXED_DT_SECONDS] neg show ?thesis
    by simp
qed

section \<open>The bounded queue\<close>

lemma length_enqueueCommand:
  "length q \<le> MAX_COMMAND_QUEUE_SIZE \<Longrightarrow> length (snd (enqueueCommand cmd q)) \<le> MAX_COMMAND_QUEUE_SIZE"
  by (simp add: enqueueCommand_def)

lemma length_enqueueAll:
  "length q \<le> MAX_COMMAND_QUEUE_SIZE \<Longrightarrow> length (enqueueAll cmds q) \<le> MAX_COMMAND_QUEUE_SIZE"
  by (induction cmds arbitrary: q) (simp_all add: length_enqueueCommand)

text \<open>
  C6. With fewer than 32 commands queued, \<open>enqueueCommand\<close> appends the command at the
  tail and returns true; with 32 or more it returns false and the queue is as it was;
  and a queue of at most 32 commands has at most 32 after any sequence of calls.
\<close>

theorem bounded_intake:
  "(length q < 32 \<longrightarrow> enqueueCommand cmd q = (True, q @ [cmd])) \<and>
   (32 \<le> length q \<longrightarrow> enqueueCommand cmd q = (False, q)) \<and>
   (length q \<le> 32 \<longrightarrow> length (enqueueAll cmds q) \<le> 32)"
  using length_enqueueAll[of q cmds]
  by (simp add: enqueueCommand_def MAX_COMMAND_QUEUE_SIZE_def)

theorem bounded_intake_witness:
  "length ([] :: Command list) < 32 \<and>
   enqueueCommand \<lparr>cmd_type = Stop, cmd_value = dzero\<rparr> [] =
     (True, [\<lparr>cmd_type = Stop, cmd_value = dzero\<rparr>]) \<and>
   32 \<le> length (replicate 32 \<lparr>cmd_type = Stop, cmd_value = dzero\<rparr>) \<and>
   enqueueCommand \<lparr>cmd_type = Accelerate, cmd_value = dlit 1 10\<rparr>
       (replicate 32 \<lparr>cmd_type = Stop, cmd_value = dzero\<rparr>) =
     (False, replicate 32 \<lparr>cmd_type = Stop, cmd_value = dzero\<rparr>) \<and>
   length (enqueueAll (replicate 40 \<lparr>cmd_type = Accelerate, cmd_value = dlit 1 10\<rparr>) []) \<le> 32"
  using bounded_intake[of "[]" "\<lparr>cmd_type = Stop, cmd_value = dzero\<rparr>"
      "replicate 40 \<lparr>cmd_type = Accelerate, cmd_value = dlit 1 10\<rparr>"]
    bounded_intake[of "replicate 32 \<lparr>cmd_type = Stop, cmd_value = dzero\<rparr>"
      "\<lparr>cmd_type = Accelerate, cmd_value = dlit 1 10\<rparr>" "[]"]
  by simp

section \<open>Stop after Accelerate\<close>

lemma drain_two:
  "drainCommands 0 state [c1, c2] = (applyCommand (applyCommand state c1) c2, [])"
  by (simp add: MAX_COMMANDS_PER_STEP_def)

lemma stoppedIfInvalid_applyCommand:
  "stoppedIfInvalid state \<Longrightarrow> stoppedIfInvalid (applyCommand state cmd)"
  by (cases "cmd_type cmd") (auto simp: stoppedIfInvalid_def applyCommand_def)

lemma stoppedIfInvalid_updateSystem:
  "stoppedIfInvalid state \<Longrightarrow> stoppedIfInvalid (updateSystem state dt)"
  by (auto simp: stoppedIfInvalid_def updateSystem_def Let_def)

lemma stoppedIfInvalid_drainCommands:
  "stoppedIfInvalid state \<Longrightarrow> stoppedIfInvalid (fst (drainCommands n state q))"
  by (induction n state q rule: drainCommands.induct)
     (simp_all add: stoppedIfInvalid_applyCommand)

lemma stoppedIfInvalid_simulationStep:
  "stoppedIfInvalid (currentState m) \<Longrightarrow> stoppedIfInvalid (currentState (simulationStep m))"
  using stoppedIfInvalid_drainCommands[of "currentState m" 0 "commandQueue m"]
  by (cases "drainCommands 0 (currentState m) (commandQueue m)")
     (simp add: simulationStep_def stoppedIfInvalid_updateSystem)

lemma stoppedIfInvalid_frameStep:
  assumes "stoppedIfInvalid (currentState m)"
  shows "stoppedIfInvalid (currentState (frameStep dt cmds m))"
proof -
  let ?m1 = "m\<lparr>timeAccumulator := dadd (timeAccumulator m) dt\<rparr>"
  have "stoppedIfInvalid (currentState (snd (simulationLoop 0 ?m1)))"
    by (rule simulationLoop_invariant[where P = "\<lambda>x. stoppedIfInvalid (currentState x)"])
       (simp_all add: assms stoppedIfInvalid_simulationStep)
  then show ?thesis
    by (simp add: frameStep_def currentState_runTicks Let_def)
qed

lemma stoppedIfInvalid_runFrames:
  "stoppedIfInvalid (currentState m) \<Longrightarrow> stoppedIfInvalid (currentState (runFrames inputs m))"
proof (induction inputs arbitrary: m)
  case Nil
  then show ?case by simp
next
  case (Cons input inputs)
  obtain dt cmds where "input = (dt, cmds)" by (cases input)
  with Cons show ?case by (simp add: stoppedIfInvalid_frameStep)
qed

lemma stoppedIfInvalid_mainLoop:
  "stoppedIfInvalid (currentState m) \<Longrightarrow> mainLoop clock m = Some m' \<Longrightarrow>
   stoppedIfInvalid (currentState m')"
proof (induction clock arbitrary: m)
  case Nil
  then show ?case by simp
next
  case (Cons now clock)
  from Cons.prems(2) obtain dtMs where
    run: "mainLoop clock (frameStep (clampDt (elapsedSeconds dtMs)) inputBurst (m\<lparr>lastTickMs := now\<rparr>)) = Some m'"
    by (auto simp: mainFrame_def split: option.splits)
  have "stoppedIfInvalid (currentState (frameStep (clampDt (elapsedSeconds dtMs)) inputBurst
      (m\<lparr>lastTickMs := now\<rparr>)))"
    using Cons.prems(1) by (intro stoppedIfInvalid_frameStep) simp
  from Cons.IH[OF this run] show ?case .
qed

lemma stoppedIfInvalid_initMain: "stoppedIfInvalid (currentState (initMain p t0))"
  by (simp add: stoppedIfInvalid_def initMain_def initialState_def)

lemma drain_accelerate_stop:
  "stoppedIfInvalid state \<Longrightarrow>
   velocity (fst (drainCommands 0 state
     [\<lparr>cmd_type = Accelerate, cmd_value = v\<rparr>, \<lparr>cmd_type = Stop, cmd_value = w\<rparr>])) = dzero"
  by (auto simp: applyCommand_def stoppedIfInvalid_def MAX_COMMANDS_PER_STEP_def)

lemma tick_accelerate_stop:
  assumes "stoppedIfInvalid (currentState m)"
    and "commandQueue m = [\<lparr>cmd_type = Accelerate, cmd_value = v\<rparr>, \<lparr>cmd_type = Stop, cmd_value = w\<rparr>]"
  shows "velocity (currentState (simulationStep m)) = dzero"
  using assms
  by (auto simp: simulationStep_def applyCommand_def updateSystem_def Let_def
      stoppedIfInvalid_def MAX_COMMANDS_PER_STEP_def)

text \<open>
  C8. The drain of one tick applies \<open>Accelerate v\<close> and then \<open>Stop\<close> and empties the queue
  of them, and the velocity is 0 after it, and after the whole tick, for every velocity
  before and every \<open>v\<close>: in every valid state, and in every state that a run of frames or
  of the main loop reaches from the start of \<^verbatim>\<open>main\<close>, where a state that is not valid
  already has velocity 0.
\<close>

theorem stop_overrides:
  "(valid state \<or> velocity state = dzero \<longrightarrow>
      velocity (fst (drainCommands 0 state
        [\<lparr>cmd_type = Accelerate, cmd_value = v\<rparr>, \<lparr>cmd_type = Stop, cmd_value = w\<rparr>])) = dzero) \<and>
   snd (drainCommands 0 state
        [\<lparr>cmd_type = Accelerate, cmd_value = v\<rparr>, \<lparr>cmd_type = Stop, cmd_value = w\<rparr>]) = [] \<and>
   velocity (fst (drainCommands 0 (currentState (runFrames inputs (initMain p t0)))
        [\<lparr>cmd_type = Accelerate, cmd_value = v\<rparr>, \<lparr>cmd_type = Stop, cmd_value = w\<rparr>])) = dzero \<and>
   (\<forall>m'. mainLoop clock (initMain p t0) = Some m' \<longrightarrow>
      velocity (fst (drainCommands 0 (currentState m')
        [\<lparr>cmd_type = Accelerate, cmd_value = v\<rparr>, \<lparr>cmd_type = Stop, cmd_value = w\<rparr>])) = dzero) \<and>
   (commandQueue (runFrames inputs (initMain p t0)) =
      [\<lparr>cmd_type = Accelerate, cmd_value = v\<rparr>, \<lparr>cmd_type = Stop, cmd_value = w\<rparr>] \<longrightarrow>
      velocity (currentState (simulationStep (runFrames inputs (initMain p t0)))) = dzero)"
proof -
  have start: "stoppedIfInvalid (currentState (initMain p t0))"
    by (rule stoppedIfInvalid_initMain)
  have frames: "stoppedIfInvalid (currentState (runFrames inputs (initMain p t0)))"
    using start by (rule stoppedIfInvalid_runFrames)
  have main: "stoppedIfInvalid (currentState m')" if "mainLoop clock (initMain p t0) = Some m'" for m'
    using start that by (rule stoppedIfInvalid_mainLoop)
  have one: "valid state \<or> velocity state = dzero \<longrightarrow>
      velocity (fst (drainCommands 0 state
        [\<lparr>cmd_type = Accelerate, cmd_value = v\<rparr>, \<lparr>cmd_type = Stop, cmd_value = w\<rparr>])) = dzero"
    using drain_accelerate_stop[of state v w] by (simp add: stoppedIfInvalid_def)
  show ?thesis
    using one drain_accelerate_stop[OF frames, of v w] drain_accelerate_stop[OF main, of _ v w]
      tick_accelerate_stop[OF frames, of v w]
    by (simp only: drain_two snd_conv) blast
qed

lemma offer_accelerate_stop:
  "runFrames [(dzero, [\<lparr>cmd_type = Accelerate, cmd_value = d_one\<rparr>, \<lparr>cmd_type = Stop, cmd_value = dzero\<rparr>])]
     (initMain initialState 1000) =
   (initMain initialState 1000)
     \<lparr>commandQueue := [\<lparr>cmd_type = Accelerate, cmd_value = d_one\<rparr>, \<lparr>cmd_type = Stop, cmd_value = dzero\<rparr>]\<rparr>"
  by (simp add: initMain_def initialState_def lit_eval prog_eval arith_eval)

theorem stop_overrides_witness:
  "(valid initialState \<or> velocity initialState = dzero) \<and>
   velocity (fst (drainCommands 0 initialState
     [\<lparr>cmd_type = Accelerate, cmd_value = d_one\<rparr>, \<lparr>cmd_type = Stop, cmd_value = dzero\<rparr>])) = dzero \<and>
   (\<exists>m'. mainLoop [1016] (initMain initialState 1000) = Some m' \<and>
      velocity (fst (drainCommands 0 (currentState m')
        [\<lparr>cmd_type = Accelerate, cmd_value = d_one\<rparr>, \<lparr>cmd_type = Stop, cmd_value = dzero\<rparr>])) = dzero) \<and>
   commandQueue (runFrames
       [(dzero, [\<lparr>cmd_type = Accelerate, cmd_value = d_one\<rparr>, \<lparr>cmd_type = Stop, cmd_value = dzero\<rparr>])]
       (initMain initialState 1000)) =
     [\<lparr>cmd_type = Accelerate, cmd_value = d_one\<rparr>, \<lparr>cmd_type = Stop, cmd_value = dzero\<rparr>] \<and>
   velocity (currentState (simulationStep (runFrames
       [(dzero, [\<lparr>cmd_type = Accelerate, cmd_value = d_one\<rparr>, \<lparr>cmd_type = Stop, cmd_value = dzero\<rparr>])]
       (initMain initialState 1000)))) = dzero"
proof -
  let ?cmds = "[\<lparr>cmd_type = Accelerate, cmd_value = d_one\<rparr>, \<lparr>cmd_type = Stop, cmd_value = dzero\<rparr>]"
  have v: "valid initialState \<or> velocity initialState = dzero"
    by (simp add: initialState_def)
  have "mainLoop [1016] (initMain initialState 1000) \<noteq> None"
    by (simp add: mainFrame_def elapsedMs_16 initMain_def)
  then obtain m' where run: "mainLoop [1016] (initMain initialState 1000) = Some m'"
    by blast
  have q: "commandQueue (runFrames [(dzero, ?cmds)] (initMain initialState 1000)) = ?cmds"
    by (simp only: offer_accelerate_stop) simp
  note t = stop_overrides[of initialState d_one dzero "[(dzero, ?cmds)]" initialState 1000 "[1016]"]
  from t run have "velocity (fst (drainCommands 0 (currentState m') ?cmds)) = dzero"
    by blast
  with t v q run show ?thesis by blast
qed

section \<open>Forty commands offered before the first tick\<close>

lemma enqueueResults_room:
  "length q + n \<le> MAX_COMMAND_QUEUE_SIZE \<Longrightarrow>
   enqueueResults (replicate n cmd) q = (replicate n True, q @ replicate n cmd)"
proof (induction n arbitrary: q)
  case 0
  then show ?case by simp
next
  case (Suc n)
  have "enqueueCommand cmd q = (True, q @ [cmd])"
    using Suc.prems by (simp add: enqueueCommand_def)
  moreover have "enqueueResults (replicate n cmd) (q @ [cmd]) =
      (replicate n True, (q @ [cmd]) @ replicate n cmd)"
    using Suc.prems by (intro Suc.IH) simp
  ultimately show ?case by (simp add: replicate_app_Cons_same)
qed

lemma enqueueResults_full:
  "MAX_COMMAND_QUEUE_SIZE \<le> length q \<Longrightarrow>
   enqueueResults (replicate n cmd) q = (replicate n False, q)"
  by (induction n) (simp_all add: enqueueCommand_def)

lemma enqueueResults_append:
  "enqueueResults (xs @ ys) q =
     (fst (enqueueResults xs q) @ fst (enqueueResults ys (snd (enqueueResults xs q))),
      snd (enqueueResults ys (snd (enqueueResults xs q))))"
  by (induction xs arbitrary: q) (simp_all split: prod.splits)

lemma forty_offered:
  "enqueueResults (replicate 40 cmd) [] = (replicate 32 True @ replicate 8 False, replicate 32 cmd)"
proof -
  have "replicate 40 cmd = replicate 32 cmd @ replicate 8 cmd"
    by (simp add: replicate_add[symmetric])
  moreover have "enqueueResults (replicate 32 cmd) [] = (replicate 32 True, replicate 32 cmd)"
    using enqueueResults_room[of "[]" 32 cmd] by (simp add: MAX_COMMAND_QUEUE_SIZE_def)
  moreover have "enqueueResults (replicate 8 cmd) (replicate 32 cmd) = (replicate 8 False, replicate 32 cmd)"
    by (rule enqueueResults_full) (simp add: MAX_COMMAND_QUEUE_SIZE_def)
  ultimately show ?thesis by (simp add: enqueueResults_append)
qed

lemma drain_four:
  "drainCommands 0 state (c1 # c2 # c3 # c4 # q) =
     (applyCommand (applyCommand (applyCommand (applyCommand state c1) c2) c3) c4, q)"
  by (cases q) (simp_all add: MAX_COMMANDS_PER_STEP_def)

lemma replicate_32: "replicate 32 x = x # x # x # x # replicate 28 x"
  by (simp add: numeral_eq_Suc)

lemma drain_thirty_two:
  "drainCommands 0 state (replicate 32 cmd) =
     (applyCommand (applyCommand (applyCommand (applyCommand state cmd) cmd) cmd) cmd,
      replicate 28 cmd)"
  by (simp only: replicate_32 drain_four)

lemma four_tenths_from_zero:
  "dadd (dadd (dadd (dadd dzero (dlit 1 10)) (dlit 1 10)) (dlit 1 10)) (dlit 1 10) = dlit 4 10"
  by (simp add: dzero_eq tenth_eq dlit_eval arith_eval)

lemma four_tenths_from_one:
  "dadd (dadd (dadd (dadd d_one (dlit 1 10)) (dlit 1 10)) (dlit 1 10)) (dlit 1 10) =
     Fin False 6305039478318696 (- 52)"
  by (simp add: d_one_eq tenth_eq arith_eval)

lemma one_plus_four_tenths: "dadd d_one (dlit 4 10) = Fin False 6305039478318694 (- 52)"
  by (simp add: d_one_eq dlit_eval arith_eval)

lemma four_tenths_eq: "dlit 4 10 = Fin False 7205759403792794 (- 54)"
  by (simp add: dlit_eval)

lemma first_tick_velocity:
  "velocity (currentState (simulationStep ((initMain p t0)
      \<lparr>commandQueue := replicate 32 \<lparr>cmd_type = Accelerate, cmd_value = dlit 1 10\<rparr>\<rparr>))) =
   Fin False 6305039478318696 (- 52)"
  apply (simp add: simulationStep_def initMain_def drain_thirty_two applyCommand_def initialState_def
      four_tenths_from_one updateSystem_def)
  apply (simp add: lit_eval arith_eval)
  done


lemma valid_updateSystem:
  "valid (updateSystem state dt) \<Longrightarrow> velocity (updateSystem state dt) = velocity state"
  by (simp add: updateSystem_def Let_def split: if_splits)

lemma first_tick_valid:
  "valid (currentState (simulationStep ((initMain p t0)
      \<lparr>commandQueue := replicate 32 \<lparr>cmd_type = Accelerate, cmd_value = dlit 1 10\<rparr>\<rparr>)))"
  apply (simp add: simulationStep_def initMain_def drain_thirty_two applyCommand_def initialState_def
      four_tenths_from_one updateSystem_def)
  apply (simp add: lit_eval arith_eval)
  done

theorem intake_overflow_counterexample:
  "velocity (currentState (simulationStep ((initMain initialState 0)
      \<lparr>commandQueue := snd (enqueueResults
          (replicate 40 \<lparr>cmd_type = Accelerate, cmd_value = dlit 1 10\<rparr>) [])\<rparr>)))
     \<noteq> dadd (velocity (currentState (initMain initialState 0))) (dlit 4 10) \<and>
   dsub (velocity (currentState (simulationStep ((initMain initialState 0)
      \<lparr>commandQueue := snd (enqueueResults
          (replicate 40 \<lparr>cmd_type = Accelerate, cmd_value = dlit 1 10\<rparr>) [])\<rparr>))))
      (velocity (currentState (initMain initialState 0)))
     \<noteq> dlit 4 10"
proof -
  have v0: "velocity (currentState (initMain initialState 0)) = d_one"
    by (simp add: initMain_def initialState_def)
  have "dsub (Fin False 6305039478318696 (- 52)) d_one \<noteq> dlit 4 10"
    by (simp add: d_one_eq four_tenths_eq arith_eval)
  then show ?thesis
    by (simp add: forty_offered first_tick_velocity v0 one_plus_four_tenths)
qed

text \<open>
  C9, amended. Of 40 \<open>Accelerate 0.1\<close> offered to the empty queue the first 32 are taken
  and the other 8 calls return false. The next tick takes exactly 4 of them and leaves
  28. If the state is valid before and after that tick, its velocity is the one before
  with 0.1 added four times, each addition rounded: from 0 that is the double 0.4, from
  the initial velocity 1 it is 1.4000000000000004, which is not 1 + 0.4.
\<close>

theorem intake_overflow:
  "enqueueResults (replicate 40 \<lparr>cmd_type = Accelerate, cmd_value = dlit 1 10\<rparr>) [] =
     (replicate 32 True @ replicate 8 False,
      replicate 32 \<lparr>cmd_type = Accelerate, cmd_value = dlit 1 10\<rparr>) \<and>
   (commandQueue m = replicate 32 \<lparr>cmd_type = Accelerate, cmd_value = dlit 1 10\<rparr> \<longrightarrow>
      commandQueue (simulationStep m) =
        replicate 28 \<lparr>cmd_type = Accelerate, cmd_value = dlit 1 10\<rparr> \<and>
      (valid (currentState m) \<and> valid (currentState (simulationStep m)) \<longrightarrow>
         velocity (currentState (simulationStep m)) =
           dadd (dadd (dadd (dadd (velocity (currentState m)) (dlit 1 10)) (dlit 1 10))
             (dlit 1 10)) (dlit 1 10))) \<and>
   dadd (dadd (dadd (dadd dzero (dlit 1 10)) (dlit 1 10)) (dlit 1 10)) (dlit 1 10) = dlit 4 10 \<and>
   dadd (dadd (dadd (dadd d_one (dlit 1 10)) (dlit 1 10)) (dlit 1 10)) (dlit 1 10) =
     Fin False 6305039478318696 (- 52) \<and>
   dadd d_one (dlit 4 10) = Fin False 6305039478318694 (- 52)"
proof -
  let ?a = "\<lparr>cmd_type = Accelerate, cmd_value = dlit 1 10\<rparr>"
  have queue: "commandQueue (simulationStep m) = replicate 28 ?a"
    if "commandQueue m = replicate 32 ?a"
    using that by (simp add: simulationStep_def drain_thirty_two)
  have vel: "velocity (currentState (simulationStep m)) =
      dadd (dadd (dadd (dadd (velocity (currentState m)) (dlit 1 10)) (dlit 1 10))
             (dlit 1 10)) (dlit 1 10)"
    if q: "commandQueue m = replicate 32 ?a" and v: "valid (currentState m)"
      and v': "valid (currentState (simulationStep m))"
  proof -
    let ?s = "applyCommand (applyCommand (applyCommand (applyCommand (currentState m) ?a) ?a) ?a) ?a"
    have cur: "currentState (simulationStep m) = updateSystem ?s FIXED_DT_SECONDS"
      using q by (simp add: simulationStep_def drain_thirty_two)
    have "velocity (updateSystem ?s FIXED_DT_SECONDS) = velocity ?s"
      using v' cur by (intro valid_updateSystem) simp
    moreover have "velocity ?s =
      dadd (dadd (dadd (dadd (velocity (currentState m)) (dlit 1 10)) (dlit 1 10))
             (dlit 1 10)) (dlit 1 10)"
      using v by (simp add: applyCommand_def)
    ultimately show ?thesis using cur by simp
  qed
  show ?thesis
    using queue vel forty_offered[of ?a] four_tenths_from_zero four_tenths_from_one
      one_plus_four_tenths
    by blast
qed

theorem intake_overflow_witness:
  "commandQueue ((initMain initialState 0)
      \<lparr>commandQueue := replicate 32 \<lparr>cmd_type = Accelerate, cmd_value = dlit 1 10\<rparr>\<rparr>) =
     replicate 32 \<lparr>cmd_type = Accelerate, cmd_value = dlit 1 10\<rparr> \<and>
   valid (currentState (initMain initialState 0)) \<and>
   valid (currentState (simulationStep ((initMain initialState 0)
      \<lparr>commandQueue := replicate 32 \<lparr>cmd_type = Accelerate, cmd_value = dlit 1 10\<rparr>\<rparr>))) \<and>
   commandQueue (simulationStep ((initMain initialState 0)
      \<lparr>commandQueue := replicate 32 \<lparr>cmd_type = Accelerate, cmd_value = dlit 1 10\<rparr>\<rparr>)) =
     replicate 28 \<lparr>cmd_type = Accelerate, cmd_value = dlit 1 10\<rparr> \<and>
   velocity (currentState (simulationStep ((initMain initialState 0)
      \<lparr>commandQueue := replicate 32 \<lparr>cmd_type = Accelerate, cmd_value = dlit 1 10\<rparr>\<rparr>))) =
     Fin False 6305039478318696 (- 52)"
proof -
  let ?a = "\<lparr>cmd_type = Accelerate, cmd_value = dlit 1 10\<rparr>"
  let ?m = "(initMain initialState 0)\<lparr>commandQueue := replicate 32 ?a\<rparr>"
  have q: "commandQueue ?m = replicate 32 ?a" by simp
  have v: "valid (currentState ?m)" by (simp add: initMain_def initialState_def)
  have v0: "velocity (currentState ?m) = d_one" by (simp add: initMain_def initialState_def)
  note v' = first_tick_valid[of initialState 0]
  from intake_overflow[of ?m] q v v' v0 show ?thesis
    by (simp add: initMain_def initialState_def)
qed

section \<open>Determinism\<close>

lemma tickStates_step:
  "dge (timeAccumulator m) FIXED_DT_SECONDS \<Longrightarrow> n < MAX_SIMULATION_STEPS_PER_FRAME \<Longrightarrow>
   tickStates n m = currentState (simulationStep m) # tickStates (Suc n) (simulationStep m)"
  by (subst tickStates.simps) simp

lemma tickStates_stop:
  "\<not> (dge (timeAccumulator m) FIXED_DT_SECONDS \<and> n < MAX_SIMULATION_STEPS_PER_FRAME) \<Longrightarrow>
   tickStates n m = []"
  by (auto simp: tickStates.simps[of n m])

lemma length_tickStates: "n + length (tickStates n m) = fst (simulationLoop n m)"
proof (induction n m rule: simulationLoop.induct)
  case (1 n m)
  show ?case
  proof (cases "dge (timeAccumulator m) FIXED_DT_SECONDS \<and> n < MAX_SIMULATION_STEPS_PER_FRAME")
    case True
    then show ?thesis using "1.IH" by (simp add: simulationLoop_step tickStates_step)
  next
    case False
    then show ?thesis by (simp add: simulationLoop_stop tickStates_stop)
  qed
qed

lemma last_tickStates:
  "tickStates n m \<noteq> [] \<Longrightarrow> last (tickStates n m) = currentState (snd (simulationLoop n m))"
proof (induction n m rule: simulationLoop.induct)
  case (1 n m)
  show ?case
  proof (cases "dge (timeAccumulator m) FIXED_DT_SECONDS \<and> n < MAX_SIMULATION_STEPS_PER_FRAME")
    case True
    show ?thesis
    proof (cases "tickStates (Suc n) (simulationStep m) = []")
      case True
      with \<open>dge _ _ \<and> _\<close> have "\<not> (dge (timeAccumulator (simulationStep m)) FIXED_DT_SECONDS \<and>
          Suc n < MAX_SIMULATION_STEPS_PER_FRAME)"
        by (auto simp: tickStates.simps[of "Suc n" "simulationStep m"])
      with True \<open>dge _ _ \<and> _\<close> show ?thesis
        by (simp add: simulationLoop_step tickStates_step simulationLoop_stop)
    next
      case False
      with True "1.IH" show ?thesis
        by (simp add: simulationLoop_step tickStates_step)
    qed
  next
    case False
    with "1.prems" show ?thesis by (simp add: tickStates_stop)
  qed
qed

lemma sameSimulation_step:
  "sameSimulation m1 m2 \<Longrightarrow> sameSimulation (simulationStep m1) (simulationStep m2)"
  by (simp add: sameSimulation_def simulationStep_def split: prod.splits)

lemma sameSimulation_tickStates:
  "sameSimulation m1 m2 \<Longrightarrow> tickStates n m1 = tickStates n m2"
proof (induction n m1 arbitrary: m2 rule: tickStates.induct)
  case (1 n m1)
  have acc: "timeAccumulator m1 = timeAccumulator m2"
    using "1.prems" by (simp add: sameSimulation_def)
  show ?case
  proof (cases "dge (timeAccumulator m1) FIXED_DT_SECONDS \<and> n < MAX_SIMULATION_STEPS_PER_FRAME")
    case True
    have step: "sameSimulation (simulationStep m1) (simulationStep m2)"
      using "1.prems" by (rule sameSimulation_step)
    then have "currentState (simulationStep m1) = currentState (simulationStep m2)"
      by (simp add: sameSimulation_def)
    moreover have "tickStates (n + 1) (simulationStep m1) = tickStates (n + 1) (simulationStep m2)"
      using True step by (intro "1.IH") simp_all
    ultimately show ?thesis using True acc by (simp add: tickStates_step)
  next
    case False
    then show ?thesis using acc by (simp add: tickStates_stop)
  qed
qed

lemma sameSimulation_loop:
  "sameSimulation m1 m2 \<Longrightarrow>
   fst (simulationLoop n m1) = fst (simulationLoop n m2) \<and>
   sameSimulation (snd (simulationLoop n m1)) (snd (simulationLoop n m2))"
proof (induction n m1 arbitrary: m2 rule: simulationLoop.induct)
  case (1 n m1)
  have acc: "timeAccumulator m1 = timeAccumulator m2"
    using "1.prems" by (simp add: sameSimulation_def)
  show ?case
  proof (cases "dge (timeAccumulator m1) FIXED_DT_SECONDS \<and> n < MAX_SIMULATION_STEPS_PER_FRAME")
    case True
    have step: "sameSimulation (simulationStep m1) (simulationStep m2)"
      using "1.prems" by (rule sameSimulation_step)
    have "fst (simulationLoop (n + 1) (simulationStep m1)) = fst (simulationLoop (n + 1) (simulationStep m2)) \<and>
      sameSimulation (snd (simulationLoop (n + 1) (simulationStep m1))) (snd (simulationLoop (n + 1) (simulationStep m2)))"
      using True step by (intro "1.IH") simp_all
    then show ?thesis using True acc by (simp add: simulationLoop_step)
  next
    case False
    then show ?thesis using acc "1.prems" by (simp add: simulationLoop_stop)
  qed
qed

lemma sameSimulation_frameStep:
  assumes "sameSimulation m1 m2"
  shows "sameSimulation (frameStep dt cmds m1) (frameStep dt cmds m2)"
proof -
  let ?a1 = "m1\<lparr>timeAccumulator := dadd (timeAccumulator m1) dt\<rparr>"
  let ?a2 = "m2\<lparr>timeAccumulator := dadd (timeAccumulator m2) dt\<rparr>"
  have "sameSimulation ?a1 ?a2"
    using assms by (simp add: sameSimulation_def)
  from sameSimulation_loop[OF this, of 0] show ?thesis
    by (auto simp: frameStep_def runTicks_def sameSimulation_def Let_def split: prod.splits)
qed

lemma sameSimulation_run:
  "sameSimulation m1 m2 \<Longrightarrow> runTickStates inputs m1 = runTickStates inputs m2"
proof (induction inputs arbitrary: m1 m2)
  case Nil
  then show ?case by simp
next
  case (Cons input inputs)
  obtain dt cmds where input: "input = (dt, cmds)" by (cases input)
  have "sameSimulation (m1\<lparr>timeAccumulator := dadd (timeAccumulator m1) dt\<rparr>)
      (m2\<lparr>timeAccumulator := dadd (timeAccumulator m2) dt\<rparr>)"
    using Cons.prems by (simp add: sameSimulation_def)
  then have "tickStates 0 (m1\<lparr>timeAccumulator := dadd (timeAccumulator m1) dt\<rparr>) =
      tickStates 0 (m2\<lparr>timeAccumulator := dadd (timeAccumulator m2) dt\<rparr>)"
    by (rule sameSimulation_tickStates)
  moreover have "runTickStates inputs (frameStep dt cmds m1) = runTickStates inputs (frameStep dt cmds m2)"
    using Cons.prems by (intro Cons.IH sameSimulation_frameStep)
  ultimately show ?case using input by simp
qed

text \<open>
  C2. Two runs of frames over the same sequence of clamped deltas and offered commands,
  from the same \<open>SystemState\<close>, accumulator and queue, go through the same states after
  each tick, whatever the unset \<^verbatim>\<open>previousState\<close> and the clock anchor of each run are.
\<close>

theorem determinism:
  "runTickStates inputs
     \<lparr>currentState = state, previousState = p1, lastTickMs = t1,
      timeAccumulator = acc, commandQueue = q\<rparr> =
   runTickStates inputs
     \<lparr>currentState = state, previousState = p2, lastTickMs = t2,
      timeAccumulator = acc, commandQueue = q\<rparr>"
  by (rule sameSimulation_run) (simp add: sameSimulation_def)

section \<open>The frames before the first tick\<close>

lemma frameStep_no_tick:
  assumes "tickStates 0 (m\<lparr>timeAccumulator := dadd (timeAccumulator m) dt\<rparr>) = []"
  shows "previousState (frameStep dt cmds m) = previousState m \<and>
         currentState (frameStep dt cmds m) = currentState m"
proof -
  let ?m1 = "m\<lparr>timeAccumulator := dadd (timeAccumulator m) dt\<rparr>"
  have "fst (simulationLoop 0 ?m1) = 0"
    using length_tickStates[of 0 ?m1] assms by simp
  moreover have "0 < MAX_SIMULATION_STEPS_PER_FRAME"
    by (simp add: MAX_SIMULATION_STEPS_PER_FRAME_def)
  ultimately have "\<not> dge (timeAccumulator ?m1) FIXED_DT_SECONDS"
    using assms by (auto simp: tickStates.simps[of 0 ?m1])
  then have "simulationLoop 0 ?m1 = (0, ?m1)"
    by (simp add: simulationLoop_stop)
  then show ?thesis
    by (simp add: frameStep_def runTicks_def MAX_SIMULATION_STEPS_PER_FRAME_def)
qed

lemma runFrames_no_tick:
  "runTickStates inputs m = [] \<Longrightarrow>
   previousState (runFrames inputs m) = previousState m \<and>
   currentState (runFrames inputs m) = currentState m"
proof (induction inputs arbitrary: m)
  case Nil
  then show ?case by simp
next
  case (Cons input inputs)
  obtain dt cmds where input: "input = (dt, cmds)" by (cases input)
  from Cons.prems input
  have now: "tickStates 0 (m\<lparr>timeAccumulator := dadd (timeAccumulator m) dt\<rparr>) = []"
    and later: "runTickStates inputs (frameStep dt cmds m) = []"
    by simp_all
  from Cons.IH[OF later] frameStep_no_tick[OF now, of cmds] input show ?case
    by simp
qed

lemma elapsedSeconds_0: "elapsedSeconds 0 = dzero"
  by (simp add: elapsedSeconds_def double_of_int_def thousand_eq round_quot_def dzero_eq round_eval)

lemma clampDt_0: "clampDt dzero = dzero"
  by (simp add: clampDt_def dzero_eq MAX_DT_SECONDS_eq arith_eval)

lemma first_frame:
  "mainLoop [t0] (initMain p t0) = Some (runFrames [(dzero, inputBurst)] (initMain p t0))"
  by (simp add: mainFrame_def elapsedMs_def elapsedSeconds_0 clampDt_0 initMain_def)

lemma first_frame_no_tick: "runTickStates [(dzero, inputBurst)] (initMain p t0) = []"
  by (simp add: initMain_def tickStates_stop lit_eval arith_eval)

lemma first_frame_shown:
  "present (runFrames [(dzero, inputBurst)] (initMain p t0)) =
     \<lparr>position = dadd (dmul (position p) d_one) dzero,
      velocity = dadd (dmul (velocity p) d_one) dzero, valid = True\<rparr>"
  by (simp add: present_def frameStep_def runTicks_def initMain_def simulationLoop_stop
      interpolateState_def initialState_def MAX_SIMULATION_STEPS_PER_FRAME_def
      round_quot_def lit_eval arith_eval)


text \<open>
  C10. As long as no tick has run, \<^verbatim>\<open>previousState\<close> still has the indeterminate value
  \<open>p\<close> that it started with, and what a frame shows is \<open>interpolateState\<close> of \<open>p\<close> and the
  initial state. The first frame of \<^verbatim>\<open>main\<close> whose clock reading equals the anchor is such
  a frame: it shows the position and the velocity of \<open>p\<close>, each times 1 plus 0, so two
  values of \<open>p\<close> give two different lines for the same initial state and inputs.
\<close>

theorem indeterminate_previousState_shown:
  "(runTickStates inputs (initMain p t0) = [] \<longrightarrow>
      previousState (runFrames inputs (initMain p t0)) = p \<and>
      present (runFrames inputs (initMain p t0)) =
        interpolateState p initialState
          (ddiv (timeAccumulator (runFrames inputs (initMain p t0))) FIXED_DT_SECONDS)) \<and>
   mainLoop [t0] (initMain p t0) = Some (runFrames [(dzero, inputBurst)] (initMain p t0)) \<and>
   runTickStates [(dzero, inputBurst)] (initMain p t0) = [] \<and>
   present (runFrames [(dzero, inputBurst)] (initMain p t0)) =
     \<lparr>position = dadd (dmul (position p) d_one) dzero,
      velocity = dadd (dmul (velocity p) d_one) dzero, valid = True\<rparr> \<and>
   position (present (runFrames [(dzero, inputBurst)]
       (initMain \<lparr>position = d_one, velocity = d_one, valid = False\<rparr> t0))) \<noteq>
     position (present (runFrames [(dzero, inputBurst)]
       (initMain \<lparr>position = dzero, velocity = dzero, valid = False\<rparr> t0))) \<and>
   velocity (present (runFrames [(dzero, inputBurst)]
       (initMain \<lparr>position = d_one, velocity = d_one, valid = False\<rparr> t0))) \<noteq>
     velocity (present (runFrames [(dzero, inputBurst)]
       (initMain \<lparr>position = dzero, velocity = dzero, valid = False\<rparr> t0)))"
proof -
  have general: "previousState (runFrames inputs (initMain p t0)) = p \<and>
      present (runFrames inputs (initMain p t0)) =
        interpolateState p initialState
          (ddiv (timeAccumulator (runFrames inputs (initMain p t0))) FIXED_DT_SECONDS)"
    if "runTickStates inputs (initMain p t0) = []"
    using runFrames_no_tick[OF that] by (simp add: present_def initMain_def)
  have one: "dadd (dmul d_one d_one) dzero = d_one"
    by (simp add: lit_eval arith_eval)
  have zero: "dadd (dmul dzero d_one) dzero = dzero"
    by (simp add: lit_eval arith_eval)
  have differ: "d_one \<noteq> dzero"
    by (simp add: lit_eval)
  have s1: "present (runFrames [(dzero, inputBurst)]
       (initMain \<lparr>position = d_one, velocity = d_one, valid = False\<rparr> t0)) =
      \<lparr>position = d_one, velocity = d_one, valid = True\<rparr>"
    using first_frame_shown[of "\<lparr>position = d_one, velocity = d_one, valid = False\<rparr>" t0]
    by (simp add: one)
  have s0: "present (runFrames [(dzero, inputBurst)]
       (initMain \<lparr>position = dzero, velocity = dzero, valid = False\<rparr> t0)) =
      \<lparr>position = dzero, velocity = dzero, valid = True\<rparr>"
    using first_frame_shown[of "\<lparr>position = dzero, velocity = dzero, valid = False\<rparr>" t0]
    by (simp add: zero)
  have "position (present (runFrames [(dzero, inputBurst)]
       (initMain \<lparr>position = d_one, velocity = d_one, valid = False\<rparr> t0))) \<noteq>
     position (present (runFrames [(dzero, inputBurst)]
       (initMain \<lparr>position = dzero, velocity = dzero, valid = False\<rparr> t0)))"
    and "velocity (present (runFrames [(dzero, inputBurst)]
       (initMain \<lparr>position = d_one, velocity = d_one, valid = False\<rparr> t0))) \<noteq>
     velocity (present (runFrames [(dzero, inputBurst)]
       (initMain \<lparr>position = dzero, velocity = dzero, valid = False\<rparr> t0)))"
    unfolding s1 s0 using differ by simp_all
  with general first_frame[of t0 p] first_frame_no_tick[of p t0] first_frame_shown[of p t0]
  show ?thesis by blast
qed

theorem indeterminate_previousState_shown_witness:
  "runTickStates [(dzero, inputBurst)]
     (initMain \<lparr>position = d_one, velocity = d_one, valid = False\<rparr> 1000) = [] \<and>
   previousState (runFrames [(dzero, inputBurst)]
     (initMain \<lparr>position = d_one, velocity = d_one, valid = False\<rparr> 1000)) =
     \<lparr>position = d_one, velocity = d_one, valid = False\<rparr> \<and>
   present (runFrames [(dzero, inputBurst)]
     (initMain \<lparr>position = d_one, velocity = d_one, valid = False\<rparr> 1000)) =
     \<lparr>position = d_one, velocity = d_one, valid = True\<rparr>"
proof -
  have one: "dadd (dmul d_one d_one) dzero = d_one"
    by (simp add: lit_eval arith_eval)
  from indeterminate_previousState_shown[of "[(dzero, inputBurst)]"
      "\<lparr>position = d_one, velocity = d_one, valid = False\<rparr>" 1000]
  show ?thesis by (simp add: one)
qed

section \<open>Signs and the order of doubles\<close>

lemma round_fin_sign: "round_fin s m e = Inf s \<or> (\<exists>M E. round_fin s m e = Fin s M E)"
  by (simp add: round_fin_def pack_def Let_def)

lemma dle_dzero_Fin: "dle dzero (Fin s m e) \<longleftrightarrow> \<not> s \<or> m = 0"
  by (simp add: dzero_eq fin_le_def sval_def zero_le_mult_iff)

lemma dle_dzero_Inf: "dle dzero (Inf s) \<longleftrightarrow> \<not> s"
  by (simp add: dzero_eq)

lemma dle_dzero_NaN: "\<not> dle dzero NaN"
  by (simp add: dzero_eq)

lemma dle_dzero_round_fin: "dle dzero (round_fin False m e)"
  using round_fin_sign[of False m e] by (auto simp: dle_dzero_Fin dle_dzero_Inf)

lemma dle_dzero_dadd:
  assumes "dle dzero x" and "dle dzero y"
  shows "dle dzero (dadd x y)"
proof (cases x)
  case NaN
  with assms show ?thesis by (simp add: dle_dzero_NaN)
next
  case (Inf s)
  with assms show ?thesis by (cases y) (auto simp: dle_dzero_Inf dle_dzero_NaN)
next
  case x: (Fin s1 m1 e1)
  show ?thesis
  proof (cases y)
    case NaN
    with assms show ?thesis by (simp add: dle_dzero_NaN)
  next
    case (Inf t)
    with assms x show ?thesis by (simp add: dle_dzero_Inf)
  next
    case y: (Fin s2 m2 e2)
    from assms x y have s1: "\<not> s1 \<or> m1 = 0" and s2: "\<not> s2 \<or> m2 = 0"
      by (simp_all add: dle_dzero_Fin)
    have "0 < sval s1 m1 * 2 ^ nat (e1 - min e1 e2) + sval s2 m2 * 2 ^ nat (e2 - min e1 e2)"
      if "m1 \<noteq> 0" "m2 \<noteq> 0"
      using that s1 s2 by (simp add: sval_def add_pos_pos)
    then show ?thesis
      using x y s1 s2 by (auto simp: dle_dzero_Fin dle_dzero_round_fin Let_def)
  qed
qed

lemma dle_dzero_dsub:
  assumes "dge x (Fin sc mc ec)"
  shows "dle dzero (dsub x (Fin sc mc ec))"
proof (cases x)
  case NaN
  with assms show ?thesis by (simp add: dge_def)
next
  case (Inf s)
  with assms show ?thesis by (simp add: dge_def dsub_def dle_dzero_Inf)
next
  case x: (Fin s m e)
  from assms x have le: "sval sc mc * 2 ^ nat (ec - min ec e) \<le> sval s m * 2 ^ nat (e - min ec e)"
    by (simp add: dge_def fin_le_def Let_def)
  have pos: "(0::int) < 2 ^ nat (ec - min ec e)" "(0::int) < 2 ^ nat (e - min ec e)"
    by simp_all
  have c1: "sc" if "m = 0" "mc \<noteq> 0"
    using le that by (auto simp: sval_def mult_le_0_iff zero_le_mult_iff split: if_splits)
  have c2: "\<not> s" if "mc = 0" "m \<noteq> 0"
    using le that by (auto simp: sval_def mult_le_0_iff zero_le_mult_iff split: if_splits)
  have c3: "0 \<le> sval s m * 2 ^ nat (e - min e ec) + sval (\<not> sc) mc * 2 ^ nat (ec - min e ec)"
    using le by (simp add: sval_def min.commute split: if_splits)
  show ?thesis
    using x c1 c2 c3
    by (auto simp: dsub_def dle_dzero_Fin dle_dzero_round_fin Let_def not_less)
qed

lemma dlt_total: "x \<noteq> NaN \<Longrightarrow> y \<noteq> NaN \<Longrightarrow> \<not> dle y x \<Longrightarrow> dlt x y"
  by (cases x; cases y) (auto simp: fin_le_def fin_lt_def Let_def min.commute)

lemma dle_total: "x \<noteq> NaN \<Longrightarrow> y \<noteq> NaN \<Longrightarrow> \<not> dlt y x \<Longrightarrow> dle x y"
  by (cases x; cases y) (auto simp: fin_le_def fin_lt_def Let_def min.commute)

lemma dle_refl_Fin: "dle (Fin s m e) (Fin s m e)"
  by (simp add: fin_le_def)

section \<open>The clamped delta\<close>

lemma dle_dzero_double_of_int: "0 \<le> i \<Longrightarrow> dle dzero (double_of_int i)"
  by (simp add: double_of_int_def dle_dzero_round_fin not_less[symmetric])

lemma dle_dzero_ddiv:
  assumes "dle dzero x" and "m2 \<noteq> 0"
  shows "dle dzero (ddiv x (Fin False m2 e2))"
proof (cases x)
  case NaN
  with assms show ?thesis by (simp add: dle_dzero_NaN)
next
  case (Inf s)
  with assms show ?thesis by (simp add: dle_dzero_Inf)
next
  case (Fin s m e)
  show ?thesis
  proof (cases "m = 0")
    case True
    with Fin assms(2) show ?thesis
      by (simp add: round_quot_def round_fin_def dle_dzero_Fin Let_def)
  next
    case False
    with Fin assms(1) have "\<not> s" by (simp add: dle_dzero_Fin)
    with Fin assms(2) show ?thesis
      by (simp add: round_quot_def dle_dzero_round_fin Let_def)
  qed
qed

lemma dle_dzero_elapsedSeconds: "0 \<le> sint dtMs \<Longrightarrow> dle dzero (elapsedSeconds dtMs)"
  unfolding elapsedSeconds_def
  using dle_dzero_ddiv[OF dle_dzero_double_of_int, of "sint dtMs" 8796093022208000 "- 43"]
  by (simp add: thousand_eq)

lemma clampDt_bounds:
  assumes "dle dzero dt"
  shows "dle dzero (clampDt dt) \<and> dle (clampDt dt) MAX_DT_SECONDS"
proof (cases "dgt dt MAX_DT_SECONDS")
  case True
  then show ?thesis
    using dle_refl_Fin[of False 7205759403792794 "- 57"]
    by (simp add: clampDt_def MAX_DT_SECONDS_eq dle_dzero_Fin)
next
  case False
  from assms have "dt \<noteq> NaN" by (auto simp: dle_dzero_NaN)
  with False have "dle dt MAX_DT_SECONDS"
    by (intro dle_total) (simp_all add: dgt_def MAX_DT_SECONDS_eq)
  with False assms show ?thesis by (simp add: clampDt_def)
qed

lemma sint_elapsedMs:
  "elapsedMs now lastTick = Some dtMs \<Longrightarrow> sint dtMs = sint now - sint lastTick"
  by (auto simp: elapsedMs_def Let_def sint_word_ariths signed_take_bit_int_eq_self
      split: if_splits)

lemma elapsedMs_defined:
  "0 \<le> sint lastTick \<Longrightarrow> sint lastTick \<le> sint now \<Longrightarrow> elapsedMs now lastTick \<noteq> None"
proof -
  assume a: "0 \<le> sint lastTick" "sint lastTick \<le> sint now"
  have "sint now < 2 ^ 63"
    using sint_lt[of now] by simp
  with a show ?thesis by (simp add: elapsedMs_def Let_def)
qed

text \<open>
  C7. With a clock that has not gone back, the delta of a frame, as it is added to the
  accumulator, is between 0 and \<^verbatim>\<open>MAX_DT_SECONDS\<close>. The frame is the one of \<open>mainFrame\<close>,
  which has a result whenever the 64-bit subtraction of the two readings has one; that
  is so for every anchor that is not negative.
\<close>

theorem clamped_delta:
  "sint (lastTickMs m) \<le> sint now \<Longrightarrow>
     (0 \<le> sint (lastTickMs m) \<longrightarrow> mainFrame now m \<noteq> None) \<and>
     (\<forall>m'. mainFrame now m = Some m' \<longrightarrow>
        (\<exists>dtSeconds. m' = frameStep dtSeconds inputBurst (m\<lparr>lastTickMs := now\<rparr>) \<and>
           dtSeconds = clampDt (elapsedSeconds (now - lastTickMs m)) \<and>
           dle dzero dtSeconds \<and> dle dtSeconds MAX_DT_SECONDS))"
proof -
  assume mono: "sint (lastTickMs m) \<le> sint now"
  have "mainFrame now m \<noteq> None" if "0 \<le> sint (lastTickMs m)"
    using elapsedMs_defined[OF that mono] by (simp add: mainFrame_def split: option.splits)
  moreover have "\<exists>dtSeconds. m' = frameStep dtSeconds inputBurst (m\<lparr>lastTickMs := now\<rparr>) \<and>
           dtSeconds = clampDt (elapsedSeconds (now - lastTickMs m)) \<and>
           dle dzero dtSeconds \<and> dle dtSeconds MAX_DT_SECONDS"
    if run: "mainFrame now m = Some m'" for m'
  proof -
    from run obtain dtMs where ms: "elapsedMs now (lastTickMs m) = Some dtMs"
      and m': "m' = frameStep (clampDt (elapsedSeconds dtMs)) inputBurst (m\<lparr>lastTickMs := now\<rparr>)"
      by (auto simp: mainFrame_def split: option.splits)
    from ms have dtMs: "dtMs = now - lastTickMs m"
      by (auto simp: elapsedMs_def Let_def split: if_splits)
    from sint_elapsedMs[OF ms] mono have "0 \<le> sint dtMs" by simp
    then have "dle dzero (elapsedSeconds dtMs)" by (rule dle_dzero_elapsedSeconds)
    from clampDt_bounds[OF this] m' dtMs show ?thesis by simp
  qed
  ultimately show ?thesis by blast
qed

lemma elapsedSeconds_16: "elapsedSeconds 16 = Fin False 4611686018427388 (- 58)"
  by (simp add: elapsedSeconds_def double_of_int_def thousand_eq round_quot_def round_eval)

theorem clamped_delta_witness:
  "sint (lastTickMs (initMain initialState 1000)) \<le> sint (1016 :: 64 word) \<and>
   0 \<le> sint (lastTickMs (initMain initialState 1000)) \<and>
   mainFrame 1016 (initMain initialState 1000) =
     Some (frameStep (Fin False 4611686018427388 (- 58)) inputBurst
       ((initMain initialState 1000)\<lparr>lastTickMs := 1016\<rparr>)) \<and>
   dle dzero (Fin False 4611686018427388 (- 58)) \<and>
   dle (Fin False 4611686018427388 (- 58)) MAX_DT_SECONDS"
proof -
  let ?m = "initMain initialState 1000"
  have mono: "sint (lastTickMs ?m) \<le> sint (1016 :: 64 word)"
    by (simp add: initMain_def)
  have anchor: "0 \<le> sint (lastTickMs ?m)"
    by (simp add: initMain_def)
  have dt: "clampDt (elapsedSeconds (1016 - lastTickMs ?m)) = Fin False 4611686018427388 (- 58)"
    by (simp add: initMain_def elapsedSeconds_16 clampDt_def MAX_DT_SECONDS_eq arith_eval)
  from clamped_delta[OF mono] anchor dt mono show ?thesis
    by auto
qed

section \<open>The accumulator\<close>

lemma accumulatorValues_step:
  "dge (timeAccumulator m) FIXED_DT_SECONDS \<Longrightarrow> n < MAX_SIMULATION_STEPS_PER_FRAME \<Longrightarrow>
   accumulatorValues n m = timeAccumulator m # accumulatorValues (Suc n) (simulationStep m)"
  by (subst accumulatorValues.simps) simp

lemma accumulatorValues_stop:
  "\<not> (dge (timeAccumulator m) FIXED_DT_SECONDS \<and> n < MAX_SIMULATION_STEPS_PER_FRAME) \<Longrightarrow>
   accumulatorValues n m = [timeAccumulator m]"
  by (auto simp: accumulatorValues.simps[of n m])

lemma timeAccumulator_simulationStep:
  "timeAccumulator (simulationStep m) = dsub (timeAccumulator m) FIXED_DT_SECONDS"
  by (simp add: simulationStep_def split: prod.splits)

lemma dle_dzero_simulationStep:
  "dge (timeAccumulator m) FIXED_DT_SECONDS \<Longrightarrow> dle dzero (timeAccumulator (simulationStep m))"
  using dle_dzero_dsub[of "timeAccumulator m" False 5764607523034235 "- 59"]
  by (simp add: timeAccumulator_simulationStep FIXED_DT_SECONDS_eq)

lemma accumulatorValues_nonneg:
  "dle dzero (timeAccumulator m) \<Longrightarrow> \<forall>a \<in> set (accumulatorValues n m). dle dzero a"
proof (induction n m rule: accumulatorValues.induct)
  case (1 n m)
  show ?case
  proof (cases "dge (timeAccumulator m) FIXED_DT_SECONDS \<and> n < MAX_SIMULATION_STEPS_PER_FRAME")
    case True
    then have "\<forall>a \<in> set (accumulatorValues (n + 1) (simulationStep m)). dle dzero a"
      by (intro "1.IH" dle_dzero_simulationStep) simp_all
    with True "1.prems" show ?thesis by (simp add: accumulatorValues_step)
  next
    case False
    with "1.prems" show ?thesis by (simp add: accumulatorValues_stop)
  qed
qed

lemma simulationLoop_nonneg:
  "dle dzero (timeAccumulator m) \<Longrightarrow> dle dzero (timeAccumulator (snd (simulationLoop n m)))"
  by (rule simulationLoop_invariant[where P = "\<lambda>m. dle dzero (timeAccumulator m)"])
     (simp_all add: dle_dzero_simulationStep)

lemma simulationLoop_exit:
  "fst (simulationLoop n m) < MAX_SIMULATION_STEPS_PER_FRAME \<Longrightarrow>
   \<not> dge (timeAccumulator (snd (simulationLoop n m))) FIXED_DT_SECONDS"
proof (induction n m rule: simulationLoop.induct)
  case (1 n m)
  show ?case
  proof (cases "dge (timeAccumulator m) FIXED_DT_SECONDS \<and> n < MAX_SIMULATION_STEPS_PER_FRAME")
    case True
    with "1.prems" "1.IH" show ?thesis by (simp add: simulationLoop_step)
  next
    case False
    with "1.prems" show ?thesis by (simp add: simulationLoop_stop)
  qed
qed

lemma timeAccumulator_frameStep:
  "timeAccumulator (frameStep dt cmds m) = timeAccumulator (snd (runTicks dt m))"
  by (simp add: frameStep_def Let_def)

lemma frame_accumulator_bounds:
  "dle dzero (timeAccumulator m) \<Longrightarrow> dle dzero dtSeconds \<Longrightarrow>
     (\<forall>a \<in> set (frameAccumulator dtSeconds m). dle dzero a) \<and>
     dle dzero (timeAccumulator (frameStep dtSeconds cmds m)) \<and>
     (fst (runTicks dtSeconds m) < MAX_SIMULATION_STEPS_PER_FRAME \<longrightarrow>
        dlt (timeAccumulator (frameStep dtSeconds cmds m)) FIXED_DT_SECONDS)"
proof -
  assume acc: "dle dzero (timeAccumulator m)" and dt: "dle dzero dtSeconds"
  let ?m1 = "m\<lparr>timeAccumulator := dadd (timeAccumulator m) dtSeconds\<rparr>"
  have start: "dle dzero (timeAccumulator ?m1)"
    using dle_dzero_dadd[OF acc dt] by simp
  have loop: "dle dzero (timeAccumulator (snd (simulationLoop 0 ?m1)))"
    using start by (rule simulationLoop_nonneg)
  obtain steps m' where run: "simulationLoop 0 ?m1 = (steps, m')"
    by (cases "simulationLoop 0 ?m1")
  have "dle dzero dzero"
    using dle_dzero_Fin[of False 0 "- 1074"] by (simp add: dzero_eq)
  with loop run have final: "dle dzero (timeAccumulator (snd (runTicks dtSeconds m)))"
    by (simp add: runTicks_def)
  have below: "dlt (timeAccumulator (snd (runTicks dtSeconds m))) FIXED_DT_SECONDS"
    if few: "fst (runTicks dtSeconds m) < MAX_SIMULATION_STEPS_PER_FRAME"
  proof -
    from few run have steps: "fst (simulationLoop 0 ?m1) < MAX_SIMULATION_STEPS_PER_FRAME"
      and same: "snd (runTicks dtSeconds m) = snd (simulationLoop 0 ?m1)"
      by (auto simp: runTicks_def split: if_splits)
    from simulationLoop_exit[OF steps]
    have "\<not> dle FIXED_DT_SECONDS (timeAccumulator (snd (simulationLoop 0 ?m1)))"
      by (simp add: dge_def)
    moreover from loop have "timeAccumulator (snd (simulationLoop 0 ?m1)) \<noteq> NaN"
      by (auto simp: dle_dzero_NaN)
    ultimately show ?thesis
      using same by (intro dlt_total) (simp_all add: FIXED_DT_SECONDS_eq)
  qed
  have "\<forall>a \<in> set (accumulatorValues 0 ?m1). dle dzero a"
    using start by (rule accumulatorValues_nonneg)
  with final below show ?thesis
    by (simp add: frameAccumulator_def timeAccumulator_frameStep)
qed


lemma runFrames_nonneg:
  "dle dzero (timeAccumulator m) \<Longrightarrow> \<forall>(dtSeconds, cmds) \<in> set inputs. dle dzero dtSeconds \<Longrightarrow>
   dle dzero (timeAccumulator (runFrames inputs m))"
proof (induction inputs arbitrary: m)
  case Nil
  then show ?case by simp
next
  case (Cons input inputs)
  obtain dt cmds where input: "input = (dt, cmds)" by (cases input)
  with Cons.prems have "dle dzero (timeAccumulator (frameStep dt cmds m))"
    using frame_accumulator_bounds[of m dt cmds] by simp
  with Cons.prems input show ?case by (simp add: Cons.IH)
qed

lemma sixteen_ms_ticks:
  "simulationLoop 0 ((initMain initialState 1000)
      \<lparr>timeAccumulator := Fin False 4611686018427388 (- 58)\<rparr>) =
   (1, \<lparr>currentState = \<lparr>position = Fin False 5764607523034235 (- 59), velocity = d_one, valid = True\<rparr>,
        previousState = initialState, lastTickMs = 1000,
        timeAccumulator = Fin False 6917529027641082 (- 60), commandQueue = []\<rparr>)"
  by (simp add: initMain_def initialState_def lit_eval prog_eval arith_eval)

lemma sixteen_ms_values:
  "accumulatorValues 0 ((initMain initialState 1000)
      \<lparr>timeAccumulator := Fin False 4611686018427388 (- 58)\<rparr>) =
   [Fin False 4611686018427388 (- 58), Fin False 6917529027641082 (- 60)]"
  by (simp add: initMain_def initialState_def accumulatorValues_step accumulatorValues_stop
      lit_eval prog_eval arith_eval)



lemma mainFrame_nonneg:
  assumes acc: "dle dzero (timeAccumulator m)"
    and mono: "sint (lastTickMs m) \<le> sint now"
    and run: "mainFrame now m = Some m'"
  shows "dle dzero (timeAccumulator m')"
proof -
  from run obtain dtMs where ms: "elapsedMs now (lastTickMs m) = Some dtMs"
    and m': "m' = frameStep (clampDt (elapsedSeconds dtMs)) inputBurst (m\<lparr>lastTickMs := now\<rparr>)"
    by (auto simp: mainFrame_def split: option.splits)
  from sint_elapsedMs[OF ms] mono have "0 \<le> sint dtMs" by simp
  then have "dle dzero (clampDt (elapsedSeconds dtMs))"
    using clampDt_bounds[OF dle_dzero_elapsedSeconds] by simp
  with frame_accumulator_bounds[of "m\<lparr>lastTickMs := now\<rparr>" "clampDt (elapsedSeconds dtMs)" inputBurst]
    acc m' show ?thesis by simp
qed

lemma lastTickMs_frameStep: "lastTickMs (frameStep dt cmds m) = lastTickMs m"
proof -
  let ?m1 = "m\<lparr>timeAccumulator := dadd (timeAccumulator m) dt\<rparr>"
  have "lastTickMs (snd (simulationLoop 0 ?m1)) = lastTickMs m"
    by (rule simulationLoop_invariant[where P = "\<lambda>x. lastTickMs x = lastTickMs m"])
       (simp_all add: simulationStep_def split: prod.splits)
  then show ?thesis
    by (cases "simulationLoop 0 ?m1") (simp add: frameStep_def runTicks_def)
qed

lemma mainLoop_nonneg:
  "dle dzero (timeAccumulator m) \<Longrightarrow>
   sorted_wrt (\<lambda>a b. sint a \<le> sint b) (lastTickMs m # clock) \<Longrightarrow>
   mainLoop clock m = Some m' \<Longrightarrow> dle dzero (timeAccumulator m')"
proof (induction clock arbitrary: m)
  case Nil
  then show ?case by simp
next
  case (Cons now clock)
  from Cons.prems(3) obtain m1 where first: "mainFrame now m = Some m1"
    and rest: "mainLoop clock m1 = Some m'"
    by (auto split: option.splits)
  from Cons.prems(2) have mono: "sint (lastTickMs m) \<le> sint now"
    and sorted: "sorted_wrt (\<lambda>a b. sint a \<le> sint b) (now # clock)"
    by simp_all
  have anchor: "lastTickMs m1 = now"
    using first by (auto simp: mainFrame_def lastTickMs_frameStep split: option.splits)
  from mainFrame_nonneg[OF Cons.prems(1) mono first] sorted anchor rest
  show ?case by (intro Cons.IH) simp_all
qed

text \<open>
  C3. In a frame that starts with an accumulator of at least 0 and adds a delta of at
  least 0 (the initial 0.0 and the clamped deltas are), every value that the
  accumulator takes is at least 0: after the addition, after each tick and at the end
  of the frame. If the frame made fewer ticks than the cap, the accumulator at its end
  is also below \<^verbatim>\<open>FIXED_DT_SECONDS\<close>.
\<close>


theorem accumulator_bounds:
  "dle dzero (timeAccumulator m) \<Longrightarrow>
     (dle dzero dtSeconds \<longrightarrow>
        (\<forall>a \<in> set (frameAccumulator dtSeconds m). dle dzero a) \<and>
        dle dzero (timeAccumulator (frameStep dtSeconds cmds m)) \<and>
        (fst (runTicks dtSeconds m) < MAX_SIMULATION_STEPS_PER_FRAME \<longrightarrow>
           dlt (timeAccumulator (frameStep dtSeconds cmds m)) FIXED_DT_SECONDS)) \<and>
     (\<forall>now m'. sint (lastTickMs m) \<le> sint now \<and> mainFrame now m = Some m' \<longrightarrow>
        dle dzero (timeAccumulator m'))"
  using frame_accumulator_bounds[of m dtSeconds cmds] mainFrame_nonneg[of m]
  by blast

theorem accumulator_bounds_witness:
  "dle dzero (timeAccumulator (initMain initialState 1000)) \<and>
   dle dzero (Fin False 4611686018427388 (- 58)) \<and>
   fst (runTicks (Fin False 4611686018427388 (- 58)) (initMain initialState 1000)) = 1 \<and>
   frameAccumulator (Fin False 4611686018427388 (- 58)) (initMain initialState 1000) =
     [Fin False 4611686018427388 (- 58), Fin False 6917529027641082 (- 60),
      Fin False 6917529027641082 (- 60)] \<and>
   dle dzero (Fin False 6917529027641082 (- 60)) \<and>
   dlt (timeAccumulator (frameStep (Fin False 4611686018427388 (- 58)) inputBurst
     (initMain initialState 1000))) FIXED_DT_SECONDS"
proof -
  let ?m = "initMain initialState 1000"
  let ?dt = "Fin False 4611686018427388 (- 58)"
  have acc: "dle dzero (timeAccumulator ?m)"
    using dle_dzero_Fin[of False 0 "- 1074"] by (simp add: initMain_def dzero_eq)
  have dt: "dle dzero ?dt"
    by (simp add: dle_dzero_Fin)
  have sum: "dadd (timeAccumulator ?m) ?dt = ?dt"
    by (simp add: initMain_def dzero_eq round_eval)
  have run: "runTicks ?dt ?m =
     (1, \<lparr>currentState = \<lparr>position = Fin False 5764607523034235 (- 59), velocity = d_one, valid = True\<rparr>,
        previousState = initialState, lastTickMs = 1000,
        timeAccumulator = Fin False 6917529027641082 (- 60), commandQueue = []\<rparr>)"
    using sixteen_ms_ticks
    by (simp add: runTicks_def sum MAX_SIMULATION_STEPS_PER_FRAME_def)
  have vals: "frameAccumulator ?dt ?m = [?dt, Fin False 6917529027641082 (- 60),
      Fin False 6917529027641082 (- 60)]"
    using sixteen_ms_values by (simp add: frameAccumulator_def sum run)
  have few: "fst (runTicks ?dt ?m) < MAX_SIMULATION_STEPS_PER_FRAME"
    by (simp add: run MAX_SIMULATION_STEPS_PER_FRAME_def)
  from accumulator_bounds[OF acc, of ?dt inputBurst] few acc dt run vals show ?thesis
    by simp
qed

section \<open>Rounding is monotone\<close>

lemma bitlen_pos: "0 < m \<Longrightarrow> bitlen m = Suc (bitlen (m div 2))"
  by (subst bitlen.simps) simp

lemma bitlen_bounds: "0 < m \<Longrightarrow> 2 ^ (bitlen m - 1) \<le> m \<and> m < 2 ^ bitlen m"
proof (induction m rule: bitlen.induct)
  case (1 m)
  show ?case
  proof (cases "m div 2 = 0")
    case True
    with "1.prems" have "m = 1" by (simp add: div_eq_0_iff) 
    then show ?thesis by (simp add: bitlen_pos bitlen_0)
  next
    case False
    then have half: "0 < m div 2" by simp
    with "1.IH" "1.prems"
    have IH: "2 ^ (bitlen (m div 2) - 1) \<le> m div 2" "m div 2 < 2 ^ bitlen (m div 2)"
      by simp_all
    have b: "0 < bitlen (m div 2)"
      using half by (simp add: bitlen_pos)
    then have "(2::nat) ^ bitlen (m div 2) = 2 * 2 ^ (bitlen (m div 2) - 1)"
      by (cases "bitlen (m div 2)") simp_all
    with IH have "2 ^ bitlen (m div 2) \<le> m" "m < 2 * 2 ^ bitlen (m div 2)"
      by linarith+
    with "1.prems" show ?thesis by (simp add: bitlen_pos)
  qed
qed

lemma rne_of_int: "rne (of_int n) = n"
  by (simp add: rne_def)

lemma rne_bounds: "\<lfloor>x\<rfloor> \<le> rne x \<and> rne x \<le> \<lfloor>x\<rfloor> + 1"
  by (simp add: rne_def Let_def)

lemma rne_mono:
  assumes "x \<le> y"
  shows "rne x \<le> rne y"
proof (cases "\<lfloor>x\<rfloor> = \<lfloor>y\<rfloor>")
  case True
  with assms have "x - of_int \<lfloor>x\<rfloor> \<le> y - of_int \<lfloor>y\<rfloor>" by simp
  with True show ?thesis by (auto simp: rne_def Let_def)
next
  case False
  with assms have "\<lfloor>x\<rfloor> < \<lfloor>y\<rfloor>"
    using floor_mono[OF assms] by linarith
  with rne_bounds[of x] rne_bounds[of y] show ?thesis by linarith
qed

lemma rne_shift_rne: "int (rne_shift m k) = rne (real m / 2 ^ k)"
proof -
  define q where "q = m div 2 ^ k"
  define r where "r = m mod 2 ^ k"
  have m: "m = q * 2 ^ k + r"
    using div_mult_mod_eq[of m "2 ^ k"] by (simp add: q_def r_def)
  have r: "r < 2 ^ k"
    by (simp add: r_def)
  have x: "real m / 2 ^ k = real q + real r / 2 ^ k"
    by (simp add: m field_simps)
  have "0 \<le> real r / 2 ^ k" "real r / 2 ^ k < 1"
    using r by (simp_all add: field_simps) 
  then have fl: "\<lfloor>real m / 2 ^ k\<rfloor> = int q"
    unfolding x by (intro floor_unique) (simp_all add: )
  have frac: "real m / 2 ^ k - of_int (int q) = real r / 2 ^ k"
    by (simp add: x)
  show ?thesis
  proof (cases k)
    case 0
    then show ?thesis
      by (simp add: rne_shift_def rne_def Let_def)
  next
    case (Suc j)
    then have half: "(2::nat) ^ k = 2 * 2 ^ (k - 1)" by simp
    have lt: "real r / 2 ^ k < 1 / 2 \<longleftrightarrow> r < 2 ^ (k - 1)"
    proof -
      have "real r / 2 ^ k < 1 / 2 \<longleftrightarrow> 2 * real r < 2 ^ k"
        by (simp add: field_simps)
      also have "\<dots> \<longleftrightarrow> real (2 * r) < real (2 ^ k)" by simp
      also have "\<dots> \<longleftrightarrow> 2 * r < 2 ^ k" by (simp only: of_nat_less_iff)
      also have "\<dots> \<longleftrightarrow> r < 2 ^ (k - 1)" by (subst half) simp
      finally show ?thesis .
    qed
    have gt: "1 / 2 < real r / 2 ^ k \<longleftrightarrow> 2 ^ (k - 1) < r"
    proof -
      have "1 / 2 < real r / 2 ^ k \<longleftrightarrow> 2 ^ k < 2 * real r"
        by (simp add: field_simps)
      also have "\<dots> \<longleftrightarrow> real (2 ^ k) < real (2 * r)" by simp
      also have "\<dots> \<longleftrightarrow> 2 ^ k < 2 * r" by (simp only: of_nat_less_iff)
      also have "\<dots> \<longleftrightarrow> 2 ^ (k - 1) < r" by (subst half) simp
      finally show ?thesis .
    qed
    show ?thesis
      unfolding rne_def Let_def fl frac lt gt
      unfolding rne_shift_def Let_def q_def[symmetric] r_def[symmetric]
      by (auto simp: not_less)
  qed
qed

lemma round_mant_rne: "int (round_mant m sh) = rne (real m * 2 powi (- sh))"
proof (cases "sh \<le> 0")
  case True
  then have "real m * 2 powi (- sh) = of_int (int (m * 2 ^ nat (- sh)))"
    by (simp add: power_int_nonneg_exp)
  then show ?thesis
    using True by (simp only: rne_of_int round_mant_def if_True)
next
  case False
  then have "real m * 2 powi (- sh) = real m / 2 ^ nat sh"
    by (simp add: power_int_minus power_int_nonneg_exp field_simps)
  then show ?thesis
    using False by (simp add: round_mant_def rne_shift_rne)
qed

lemma quantum_cases:
  "int (bitlen m) - 53 \<le> quantum m e \<and> - 1074 - e \<le> quantum m e \<and>
   (quantum m e = int (bitlen m) - 53 \<or> quantum m e = - 1074 - e)"
  by (auto simp: quantum_def max_def)

lemma value_bounds:
  assumes "0 < m"
  shows "2 powi (int (bitlen m) - 1 + e) \<le> real m * 2 powi e"
    and "real m * 2 powi e < 2 powi (int (bitlen m) + e)"
proof -
  from bitlen_bounds[OF assms] have lo: "2 ^ (bitlen m - 1) \<le> m" and hi: "m < 2 ^ bitlen m"
    by simp_all
  have b: "0 < bitlen m"
    using assms by (simp add: bitlen_pos)
  from lo have "(2::real) ^ (bitlen m - 1) \<le> real m"
    by (metis of_nat_le_iff of_nat_numeral of_nat_power)
  moreover have "(2::real) powi (int (bitlen m) - 1) = 2 ^ (bitlen m - 1)"
    using b by (simp add: power_int_nonneg_exp nat_diff_distrib')
  ultimately have "2 powi (int (bitlen m) - 1) * 2 powi e \<le> real m * 2 powi e"
    by (simp add: mult_right_mono)
  then show "2 powi (int (bitlen m) - 1 + e) \<le> real m * 2 powi e"
    by (simp add: power_int_add)
  from hi have "real m < (2::real) ^ bitlen m"
    by (metis of_nat_less_iff of_nat_numeral of_nat_power)
  then have "real m * 2 powi e < 2 powi (int (bitlen m)) * 2 powi e"
    by (simp add: mult_strict_right_mono)
  then show "real m * 2 powi e < 2 powi (int (bitlen m) + e)"
    by (simp add: power_int_add)
qed

lemma round_mant_upper:
  assumes "0 < m" and "int (bitlen m) - 53 \<le> sh"
  shows "round_mant m sh \<le> 2 ^ 53"
proof -
  have "real m * 2 powi (- sh) < 2 powi (int (bitlen m) + (- sh))"
    using value_bounds(2)[OF assms(1)] .
  also have "\<dots> \<le> 2 powi 53"
    using assms(2) by (intro power_int_increasing) simp_all
  finally have "real m * 2 powi (- sh) \<le> of_int (2 ^ 53)" by simp
  from rne_mono[OF this] have "rne (real m * 2 powi (- sh)) \<le> 2 ^ 53"
    by (simp only: rne_of_int)
  then show ?thesis
    by (simp add: round_mant_rne[symmetric])
qed

lemma round_mant_lower:
  assumes "0 < m" and "sh = int (bitlen m) - 53"
  shows "2 ^ 52 \<le> round_mant m sh"
proof -
  have "(2::real) powi 52 = 2 powi (int (bitlen m) - 1 + (- sh))"
    using assms(2) by simp
  also have "\<dots> \<le> real m * 2 powi (- sh)"
    using value_bounds(1)[OF assms(1)] .
  finally have "of_int (2 ^ 52) \<le> real m * 2 powi (- sh)" by simp
  from rne_mono[OF this] have "2 ^ 52 \<le> rne (real m * 2 powi (- sh))"
    by (simp only: rne_of_int)
  then show ?thesis
    by (simp add: round_mant_rne[symmetric])
qed

lemma round_value_rne:
  "round_value m e = of_int (rne ((real m * 2 powi e) * 2 powi (- (e + quantum m e)))) * 2 powi (e + quantum m e)"
proof -
  have "(2::real) powi e * 2 powi (- (e + quantum m e)) = 2 powi (- quantum m e)"
    by (simp add: power_int_add[symmetric])
  then have "(real m * 2 powi e) * 2 powi (- (e + quantum m e)) = real m * 2 powi (- quantum m e)"
    by (simp add: mult.assoc)
  then show ?thesis
    unfolding round_value_def using round_mant_rne[of m "quantum m e"]
    by (metis of_int_of_nat_eq)
qed

lemma round_value_mono:
  assumes m1: "0 < m1" and m2: "0 < m2"
    and le: "real m1 * 2 powi e1 \<le> real m2 * 2 powi e2"
  shows "round_value m1 e1 \<le> round_value m2 e2"
proof -
  define Q1 where "Q1 = quantum m1 e1"
  define Q2 where "Q2 = quantum m2 e2"
  define E1 where "E1 = e1 + Q1"
  define E2 where "E2 = e2 + Q2"
  note q1 = quantum_cases[of m1 e1, folded Q1_def]
  note q2 = quantum_cases[of m2 e2, folded Q2_def]
  consider "E1 = E2" | "E1 < E2" | "E2 < E1" by linarith
  then show ?thesis
  proof cases
    case 1
    have "(real m1 * 2 powi e1) * 2 powi (- E1) \<le> (real m2 * 2 powi e2) * 2 powi (- E1)"
      using le by (intro mult_right_mono) simp_all
    from rne_mono[OF this]
    have "of_int (rne ((real m1 * 2 powi e1) * 2 powi (- E1))) * (2::real) powi E1
        \<le> of_int (rne ((real m2 * 2 powi e2) * 2 powi (- E1))) * 2 powi E1"
      by (intro mult_right_mono) simp_all
    moreover have "round_value m1 e1 =
        of_int (rne ((real m1 * 2 powi e1) * 2 powi (- E1))) * 2 powi E1"
      unfolding E1_def Q1_def by (rule round_value_rne)
    moreover have "round_value m2 e2 =
        of_int (rne ((real m2 * 2 powi e2) * 2 powi (- E1))) * 2 powi E1"
      unfolding 1 unfolding E2_def Q2_def by (rule round_value_rne)
    ultimately show ?thesis by simp
  next
    case 2
    have "real (round_mant m1 Q1) \<le> 2 ^ 53"
      using round_mant_upper[OF m1, of Q1] q1
      by (metis (mono_tags, opaque_lifting) of_nat_le_iff of_nat_numeral of_nat_power)
    then have "round_value m1 e1 \<le> 2 ^ 53 * 2 powi E1"
      unfolding round_value_def Q1_def[symmetric] E1_def[symmetric]
      by (intro mult_right_mono) simp_all
    also have "\<dots> = 2 powi (E1 + 53)"
      by (simp add: power_int_add)
    also have "\<dots> \<le> 2 powi (E2 + 52)"
      using 2 by (intro power_int_increasing) simp_all
    also have "\<dots> = 2 ^ 52 * 2 powi E2"
      by (simp add: power_int_add)
    also have "\<dots> \<le> round_value m2 e2"
    proof -
      have "Q2 = int (bitlen m2) - 53"
        using 2 q1 q2 by (auto simp: E1_def E2_def)
      from round_mant_lower[OF m2 this] have "2 ^ 52 \<le> real (round_mant m2 Q2)"
        by (metis (mono_tags, opaque_lifting) of_nat_le_iff of_nat_numeral of_nat_power)
      then show ?thesis
        unfolding round_value_def Q2_def[symmetric] E2_def[symmetric]
        by (intro mult_right_mono) simp_all
    qed
    finally show ?thesis .
  next
    case 3
    have Q1: "Q1 = int (bitlen m1) - 53"
      using 3 q1 q2 by (auto simp: E1_def E2_def)
    have "real m2 * 2 powi e2 < 2 powi (int (bitlen m2) + e2)"
      using value_bounds(2)[OF m2] .
    also have "\<dots> \<le> 2 powi (int (bitlen m1) - 1 + e1)"
      using 3 q2 Q1 by (intro power_int_increasing) (auto simp: E1_def E2_def)
    also have "\<dots> \<le> real m1 * 2 powi e1"
      using value_bounds(1)[OF m1] .
    finally show ?thesis using le by simp
  qed
qed

lemma aligned_valof:
  "e \<le> e1 \<Longrightarrow> of_int (sval s m * 2 ^ nat (e1 - e)) = valof (Fin s m e1) * 2 powi (- e)"
proof -
  assume "e \<le> e1"
  then have "(2::real) ^ nat (e1 - e) = 2 powi (e1 - e)"
    by (simp add: power_int_nonneg_exp)
  also have "\<dots> = 2 powi e1 * 2 powi (- e)"
    by (simp add: power_int_add[symmetric])
  finally show ?thesis
    by (simp add: valof_def)
qed

lemma fin_le_valof:
  "fin_le s1 m1 e1 s2 m2 e2 \<longleftrightarrow> valof (Fin s1 m1 e1) \<le> valof (Fin s2 m2 e2)"
proof -
  let ?e = "min e1 e2"
  have "fin_le s1 m1 e1 s2 m2 e2 \<longleftrightarrow>
      (of_int (sval s1 m1 * 2 ^ nat (e1 - ?e)) :: real) \<le> of_int (sval s2 m2 * 2 ^ nat (e2 - ?e))"
    unfolding fin_le_def Let_def by (simp only: of_int_le_iff)
  also have "\<dots> \<longleftrightarrow> valof (Fin s1 m1 e1) * 2 powi (- ?e) \<le> valof (Fin s2 m2 e2) * 2 powi (- ?e)"
    by (simp only: aligned_valof[of ?e e1] aligned_valof[of ?e e2] min.cobounded1 min.cobounded2)
  also have "\<dots> \<longleftrightarrow> valof (Fin s1 m1 e1) \<le> valof (Fin s2 m2 e2)"
    by (rule mult_le_cancel_right_pos) simp
  finally show ?thesis .
qed

lemma fin_lt_valof:
  "fin_lt s1 m1 e1 s2 m2 e2 \<longleftrightarrow> valof (Fin s1 m1 e1) < valof (Fin s2 m2 e2)"
proof -
  let ?e = "min e1 e2"
  have "fin_lt s1 m1 e1 s2 m2 e2 \<longleftrightarrow>
      (of_int (sval s1 m1 * 2 ^ nat (e1 - ?e)) :: real) < of_int (sval s2 m2 * 2 ^ nat (e2 - ?e))"
    unfolding fin_lt_def Let_def by (simp only: of_int_less_iff)
  also have "\<dots> \<longleftrightarrow> valof (Fin s1 m1 e1) * 2 powi (- ?e) < valof (Fin s2 m2 e2) * 2 powi (- ?e)"
    by (simp only: aligned_valof[of ?e e1] aligned_valof[of ?e e2] min.cobounded1 min.cobounded2)
  also have "\<dots> \<longleftrightarrow> valof (Fin s1 m1 e1) < valof (Fin s2 m2 e2)"
    by (rule mult_less_cancel_right_pos) simp
  finally show ?thesis .
qed

lemma valof_pos: "valof (Fin False m e) = real m * 2 powi e"
  by (simp add: valof_def sval_def)

lemma round_fin_value:
  assumes "0 < m"
  shows "round_fin s m e = Inf s \<or>
         (\<exists>M E. round_fin s m e = Fin s M E \<and> real M * 2 powi E = round_value m e)"
proof (cases "round_mant m (quantum m e) = 2 ^ 53")
  case True
  have "(2::real) ^ 52 * 2 powi (e + quantum m e + 1) = 2 ^ 53 * 2 powi (e + quantum m e)"
    by (simp add: power_int_add)
  then have "real (2 ^ 52) * 2 powi (e + quantum m e + 1) = round_value m e"
    by (simp add: round_value_def True)
  with True assms show ?thesis
    by (simp add: round_fin_def pack_def Let_def)
next
  case False
  with assms show ?thesis
    by (simp add: round_fin_def pack_def Let_def round_value_def)
qed

lemma dsub_exact:
  assumes "0 < m" and "0 < mc"
    and lt: "valof (Fin False mc ec) < valof (Fin False m e)"
  shows "\<exists>z ez. 0 < z \<and> dsub (Fin False m e) (Fin False mc ec) = round_fin False z ez \<and>
           real z * 2 powi ez = valof (Fin False m e) - valof (Fin False mc ec)"
proof -
  let ?e = "min e ec"
  let ?z = "sval False m * 2 ^ nat (e - ?e) + sval True mc * 2 ^ nat (ec - ?e)"
  have zr: "(of_int ?z :: real) = (valof (Fin False m e) - valof (Fin False mc ec)) * 2 powi (- ?e)"
  proof -
    have "(of_int ?z :: real) =
        of_int (sval False m * 2 ^ nat (e - ?e)) + of_int (sval True mc * 2 ^ nat (ec - ?e))"
      by simp
    also have "\<dots> = valof (Fin False m e) * 2 powi (- ?e) + valof (Fin True mc ec) * 2 powi (- ?e)"
      by (simp only: aligned_valof[of ?e e] aligned_valof[of ?e ec] min.cobounded1 min.cobounded2)
    also have "valof (Fin True mc ec) = - valof (Fin False mc ec)"
      by (simp add: valof_def sval_def)
    finally show ?thesis by (simp add: algebra_simps)
  qed
  have "0 < (valof (Fin False m e) - valof (Fin False mc ec)) * 2 powi (- ?e)"
    using lt by simp
  with zr have "0 < (of_int ?z :: real)" by simp
  then have zpos: "0 < ?z" by (simp only: of_int_0_less_iff)
  have "real (nat ?z) * 2 powi ?e = of_int ?z * 2 powi ?e"
    using zpos by simp
  also have "\<dots> = (valof (Fin False m e) - valof (Fin False mc ec)) * (2 powi (- ?e) * 2 powi ?e)"
    by (simp only: zr mult.assoc)
  also have "(2::real) powi (- ?e) * 2 powi ?e = 1"
    by (simp add: power_int_add[symmetric])
  finally have val: "real (nat ?z) * 2 powi ?e = valof (Fin False m e) - valof (Fin False mc ec)"
    by simp
  have "dsub (Fin False m e) (Fin False mc ec) = round_fin False (nat ?z) ?e"
    using assms(1,2) zpos by (simp add: dsub_def Let_def)
  with val zpos show ?thesis
    by (intro exI[of _ "nat ?z"] exI[of _ ?e]) simp
qed

lemma valof_positive: "0 < valof (Fin s m e) \<Longrightarrow> \<not> s \<and> 0 < m"
proof -
  assume "0 < valof (Fin s m e)"
  then have "0 < (of_int (sval s m) :: real) * 2 powi e"
    by (simp add: valof_def)
  moreover have "0 < (2::real) powi e" by simp
  ultimately have "0 < (of_int (sval s m) :: real)"
    by (rule zero_less_mult_pos2)
  then have "0 < sval s m" by (simp only: of_int_0_less_iff)
  then show ?thesis by (auto simp: sval_def split: if_splits)
qed

lemma dsub_lower_bound:
  assumes x: "dge x (Fin False a ea)"
    and c: "0 < mc"
    and Tc: "dlt (Fin False mc ec) (Fin False a ea)"
    and T1: "dsub (Fin False a ea) (Fin False mc ec) = Fin False M0 E0"
  shows "dge (dsub x (Fin False mc ec)) (Fin False M0 E0)"
proof -
  have cpos: "0 < valof (Fin False mc ec)"
    using c by (simp add: valof_pos)
  from Tc have lt: "valof (Fin False mc ec) < valof (Fin False a ea)"
    by (simp add: fin_lt_valof)
  with cpos have "0 < valof (Fin False a ea)" by simp
  then have a: "0 < a" by (auto dest: valof_positive)
  from dsub_exact[OF a c lt] obtain zT eT where zT: "0 < zT"
    and subT: "dsub (Fin False a ea) (Fin False mc ec) = round_fin False zT eT"
    and valT: "real zT * 2 powi eT = valof (Fin False a ea) - valof (Fin False mc ec)"
    by blast
  from round_fin_value[OF zT, of False eT] subT T1
  have low: "real M0 * 2 powi E0 = round_value zT eT"
    by auto
  show ?thesis
  proof (cases x)
    case NaN
    with x show ?thesis by (simp add: dge_def)
  next
    case (Inf s)
    with x show ?thesis by (simp add: dge_def dsub_def)
  next
    case (Fin s m e)
    with x have le: "valof (Fin False a ea) \<le> valof (Fin s m e)"
      by (simp add: dge_def fin_le_valof)
    with lt cpos have "0 < valof (Fin s m e)" by simp
    then have s: "\<not> s" and m: "0 < m" by (auto dest: valof_positive)
    from le lt have ltx: "valof (Fin False mc ec) < valof (Fin False m e)"
      using s by simp
    from dsub_exact[OF m c ltx] obtain z ez where z: "0 < z"
      and sub: "dsub (Fin False m e) (Fin False mc ec) = round_fin False z ez"
      and val: "real z * 2 powi ez = valof (Fin False m e) - valof (Fin False mc ec)"
      by blast
    have "real zT * 2 powi eT \<le> real z * 2 powi ez"
      using le s by (simp add: valT val)
    from round_value_mono[OF zT z this] low
    have mono: "real M0 * 2 powi E0 \<le> round_value z ez" by simp
    from round_fin_value[OF z, of False ez]
    show ?thesis
    proof
      assume "round_fin False z ez = Inf False"
      with sub Fin s show ?thesis by (simp add: dge_def)
    next
      assume "\<exists>M E. round_fin False z ez = Fin False M E \<and> real M * 2 powi E = round_value z ez"
      then obtain M E where r: "round_fin False z ez = Fin False M E"
        and v: "real M * 2 powi E = round_value z ez" by blast
      from mono v have "valof (Fin False M0 E0) \<le> valof (Fin False M E)"
        by (simp add: valof_pos)
      with sub Fin s r show ?thesis
        by (simp add: dge_def fin_le_valof)
    qed
  qed
qed

lemma is_double_round_fin: "is_double (round_fin s m e)"
proof (cases "m = 0")
  case True
  then show ?thesis by (simp add: round_fin_def is_double_def)
next
  case False
  then have m: "0 < m" by simp
  note q = quantum_cases[of m e]
  have up: "round_mant m (quantum m e) \<le> 2 ^ 53"
    using round_mant_upper[OF m, of "quantum m e"] q by simp
  have low: "2 ^ 52 \<le> round_mant m (quantum m e) \<or> e + quantum m e = - 1074"
    using round_mant_lower[OF m, of "quantum m e"] q by auto
  from q have "- 1074 \<le> e + quantum m e" by simp
  with up low False show ?thesis
    by (auto simp: round_fin_def pack_def is_double_def Let_def)
qed

lemma is_double_dadd: "is_double (dadd x y)"
proof (cases x)
  case NaN
  then show ?thesis by (simp add: is_double_def)
next
  case (Inf s)
  then show ?thesis by (cases y) (simp_all add: is_double_def)
next
  case x: (Fin s1 m1 e1)
  show ?thesis
  proof (cases y)
    case (Fin s2 m2 e2)
    have "is_double (Fin b 0 (- 1074))" for b
      by (simp add: is_double_def)
    with x Fin show ?thesis
      by (simp add: is_double_round_fin Let_def)
  qed (simp_all add: x is_double_def)
qed

lemma dle_trans_Fin:
  "dle (Fin s1 m1 e1) (Fin s2 m2 e2) \<Longrightarrow> dle (Fin s2 m2 e2) x \<Longrightarrow> dle (Fin s1 m1 e1) x"
  by (cases x) (auto simp: fin_le_valof)



lemma above_capSeconds:
  assumes "is_double x" and "dgt x capSeconds"
  shows "dge x (Fin False 7205759403792795 (- 57))"
proof (cases x)
  case NaN
  with assms show ?thesis by (simp add: dgt_def capSeconds_eq)
next
  case (Inf s)
  with assms show ?thesis by (simp add: dgt_def dge_def capSeconds_eq)
next
  case (Fin s m e)
  from assms(2) Fin have lt: "fin_lt False 7205759403792794 (- 57) s m e"
    by (simp add: dgt_def capSeconds_eq)
  show ?thesis
  proof (cases "- 57 \<le> e")
    case True
    then have "min (- 57) e = - 57" by simp
    with lt have "7205759403792794 < sval s m * 2 ^ nat (e + 57)"
      by (simp add: fin_lt_def sval_def)
    then have "7205759403792795 \<le> sval s m * 2 ^ nat (e + 57)"
      by linarith
    with \<open>min (- 57) e = - 57\<close> Fin show ?thesis
      by (simp add: dge_def fin_le_def sval_def)
  next
    case False
    then have "min (- 57) e = e" by simp
    with lt have big: "7205759403792794 * 2 ^ nat (- 57 - e) < sval s m"
      by (simp add: fin_lt_def sval_def)
    have "(2::int) ^ 1 \<le> 2 ^ nat (- 57 - e)"
      using False by (intro power_increasing) simp_all
    then have "7205759403792794 * (2::int) \<le> 7205759403792794 * 2 ^ nat (- 57 - e)"
      by simp
    with big have "14411518807585588 < sval s m" by linarith
    moreover have "sval s m \<le> int m" by (simp add: sval_def)
    moreover from assms(1) Fin have "int m < 2 ^ 53"
      by (simp add: is_double_def)
    ultimately show ?thesis by simp
  qed
qed

section \<open>The cap on the ticks of a frame\<close>

lemma above_cap_1:
  assumes "dge x (Fin False 7205759403792795 (- 57))"
  shows "dge (dsub x FIXED_DT_SECONDS) (Fin False 5764607523034236 (- 57))"
proof -
  have below: "dlt (Fin False 5764607523034235 (- 59)) (Fin False 7205759403792795 (- 57))"
    by (simp add: arith_eval)
  have diff: "dsub (Fin False 7205759403792795 (- 57)) (Fin False 5764607523034235 (- 59)) =
      Fin False 5764607523034236 (- 57)"
    by (simp add: arith_eval)
  have "(0::nat) < 5764607523034235" by simp
  from dsub_lower_bound[OF assms this below diff] show ?thesis
    by (simp only: FIXED_DT_SECONDS_eq)
qed

lemma above_cap_2:
  assumes "dge x (Fin False 5764607523034236 (- 57))"
  shows "dge (dsub x FIXED_DT_SECONDS) (Fin False 8646911284551354 (- 58))"
proof -
  have below: "dlt (Fin False 5764607523034235 (- 59)) (Fin False 5764607523034236 (- 57))"
    by (simp add: arith_eval)
  have diff: "dsub (Fin False 5764607523034236 (- 57)) (Fin False 5764607523034235 (- 59)) =
      Fin False 8646911284551354 (- 58)"
    by (simp add: arith_eval)
  have "(0::nat) < 5764607523034235" by simp
  from dsub_lower_bound[OF assms this below diff] show ?thesis
    by (simp only: FIXED_DT_SECONDS_eq)
qed

lemma above_cap_3:
  assumes "dge x (Fin False 8646911284551354 (- 58))"
  shows "dge (dsub x FIXED_DT_SECONDS) (Fin False 5764607523034236 (- 58))"
proof -
  have below: "dlt (Fin False 5764607523034235 (- 59)) (Fin False 8646911284551354 (- 58))"
    by (simp add: arith_eval)
  have diff: "dsub (Fin False 8646911284551354 (- 58)) (Fin False 5764607523034235 (- 59)) =
      Fin False 5764607523034236 (- 58)"
    by (simp add: arith_eval)
  have "(0::nat) < 5764607523034235" by simp
  from dsub_lower_bound[OF assms this below diff] show ?thesis
    by (simp only: FIXED_DT_SECONDS_eq)
qed

lemma above_cap_4:
  assumes "dge x (Fin False 5764607523034236 (- 58))"
  shows "dge (dsub x FIXED_DT_SECONDS) (Fin False 5764607523034237 (- 59))"
proof -
  have below: "dlt (Fin False 5764607523034235 (- 59)) (Fin False 5764607523034236 (- 58))"
    by (simp add: arith_eval)
  have diff: "dsub (Fin False 5764607523034236 (- 58)) (Fin False 5764607523034235 (- 59)) =
      Fin False 5764607523034237 (- 59)"
    by (simp add: arith_eval)
  have "(0::nat) < 5764607523034235" by simp
  from dsub_lower_bound[OF assms this below diff] show ?thesis
    by (simp only: FIXED_DT_SECONDS_eq)
qed

lemma dge_FIXED:
  "dle FIXED_DT_SECONDS (Fin False a ea) \<Longrightarrow> dge x (Fin False a ea) \<Longrightarrow> dge x FIXED_DT_SECONDS"
  unfolding FIXED_DT_SECONDS_eq dge_def by (rule dle_trans_Fin)

lemma five_ticks:
  assumes "dge (timeAccumulator m) (Fin False 7205759403792795 (- 57))"
  shows "simulationLoop 0 m =
    (5, simulationStep (simulationStep (simulationStep (simulationStep (simulationStep m)))))"
proof -
  let ?m1 = "simulationStep m"
  let ?m2 = "simulationStep ?m1"
  let ?m3 = "simulationStep ?m2"
  let ?m4 = "simulationStep ?m3"
  let ?m5 = "simulationStep ?m4"
  have a1: "dge (timeAccumulator ?m1) (Fin False 5764607523034236 (- 57))"
    using above_cap_1[OF assms] by (simp add: timeAccumulator_simulationStep)
  have a2: "dge (timeAccumulator ?m2) (Fin False 8646911284551354 (- 58))"
    using above_cap_2[OF a1] by (simp add: timeAccumulator_simulationStep)
  have a3: "dge (timeAccumulator ?m3) (Fin False 5764607523034236 (- 58))"
    using above_cap_3[OF a2] by (simp add: timeAccumulator_simulationStep)
  have a4: "dge (timeAccumulator ?m4) (Fin False 5764607523034237 (- 59))"
    using above_cap_4[OF a3] by (simp add: timeAccumulator_simulationStep)
  have g0: "dge (timeAccumulator m) FIXED_DT_SECONDS"
    using assms by (rule dge_FIXED[rotated]) (simp add: FIXED_DT_SECONDS_eq fin_le_def sval_def)
  have g1: "dge (timeAccumulator ?m1) FIXED_DT_SECONDS"
    using a1 by (rule dge_FIXED[rotated]) (simp add: FIXED_DT_SECONDS_eq fin_le_def sval_def)
  have g2: "dge (timeAccumulator ?m2) FIXED_DT_SECONDS"
    using a2 by (rule dge_FIXED[rotated]) (simp add: FIXED_DT_SECONDS_eq fin_le_def sval_def)
  have g3: "dge (timeAccumulator ?m3) FIXED_DT_SECONDS"
    using a3 by (rule dge_FIXED[rotated]) (simp add: FIXED_DT_SECONDS_eq fin_le_def sval_def)
  have g4: "dge (timeAccumulator ?m4) FIXED_DT_SECONDS"
    using a4 by (rule dge_FIXED[rotated]) (simp add: FIXED_DT_SECONDS_eq fin_le_def sval_def)
  have "simulationLoop 0 m = simulationLoop (Suc 0) ?m1"
    using g0 by (intro simulationLoop_step) (simp_all add: MAX_SIMULATION_STEPS_PER_FRAME_def)
  also have "\<dots> = simulationLoop (Suc (Suc 0)) ?m2"
    using g1 by (intro simulationLoop_step) (simp_all add: MAX_SIMULATION_STEPS_PER_FRAME_def)
  also have "\<dots> = simulationLoop (Suc (Suc (Suc 0))) ?m3"
    using g2 by (intro simulationLoop_step) (simp_all add: MAX_SIMULATION_STEPS_PER_FRAME_def)
  also have "\<dots> = simulationLoop (Suc (Suc (Suc (Suc 0)))) ?m4"
    using g3 by (intro simulationLoop_step) (simp_all add: MAX_SIMULATION_STEPS_PER_FRAME_def)
  also have "\<dots> = simulationLoop (Suc (Suc (Suc (Suc (Suc 0))))) ?m5"
    using g4 by (intro simulationLoop_step) (simp_all add: MAX_SIMULATION_STEPS_PER_FRAME_def)
  also have "\<dots> = (Suc (Suc (Suc (Suc (Suc 0)))), ?m5)"
    by (intro simulationLoop_stop) (simp add: MAX_SIMULATION_STEPS_PER_FRAME_def)
  finally show ?thesis by (simp add: eval_nat_numeral)
qed

text \<open>
  C1. When the accumulator of a frame, after the delta is added, is above the time of
  five ticks (\<open>capSeconds\<close>, the double 0.05), the simulation loop makes exactly five
  ticks, and the accumulator is then set to 0: what the five ticks left of it is not
  carried to the next frame.
\<close>

theorem step_cap:
  "dgt (dadd (timeAccumulator m) dtSeconds) capSeconds \<Longrightarrow>
     runTicks dtSeconds m =
       (5, (simulationStep (simulationStep (simulationStep (simulationStep (simulationStep
             (m\<lparr>timeAccumulator := dadd (timeAccumulator m) dtSeconds\<rparr>))))))
           \<lparr>timeAccumulator := dzero\<rparr>) \<and>
     length (tickStates 0 (m\<lparr>timeAccumulator := dadd (timeAccumulator m) dtSeconds\<rparr>)) = 5 \<and>
     timeAccumulator (frameStep dtSeconds cmds m) = dzero"
proof -
  assume above: "dgt (dadd (timeAccumulator m) dtSeconds) capSeconds"
  let ?m1 = "m\<lparr>timeAccumulator := dadd (timeAccumulator m) dtSeconds\<rparr>"
  have "dge (dadd (timeAccumulator m) dtSeconds) (Fin False 7205759403792795 (- 57))"
    using is_double_dadd above by (rule above_capSeconds)
  then have "dge (timeAccumulator ?m1) (Fin False 7205759403792795 (- 57))"
    by simp
  from five_ticks[OF this]
  have loop: "simulationLoop 0 ?m1 =
      (5, simulationStep (simulationStep (simulationStep (simulationStep (simulationStep ?m1)))))" .
  then have run: "runTicks dtSeconds m =
      (5, (simulationStep (simulationStep (simulationStep (simulationStep (simulationStep ?m1)))))
           \<lparr>timeAccumulator := dzero\<rparr>)"
    by (simp add: runTicks_def MAX_SIMULATION_STEPS_PER_FRAME_def)
  have "length (tickStates 0 ?m1) = 5"
    using length_tickStates[of 0 ?m1] loop by simp
  with run show ?thesis
    by (simp add: frameStep_def)
qed

lemma stall_after_16_ms:
  "dadd (Fin False 6917529027641082 (- 60)) MAX_DT_SECONDS = Fin False 8070450532247929 (- 57)"
  by (simp add: MAX_DT_SECONDS_eq arith_eval)

lemma left_of_stall:
  "dsub (dsub (dsub (dsub (dsub (Fin False 8070450532247929 (- 57)) FIXED_DT_SECONDS)
     FIXED_DT_SECONDS) FIXED_DT_SECONDS) FIXED_DT_SECONDS) FIXED_DT_SECONDS =
   Fin False 6917529027641074 (- 60)"
  by (simp add: FIXED_DT_SECONDS_eq arith_eval)

theorem step_cap_witness:
  "dgt (dadd (timeAccumulator ((initMain initialState 1000)
       \<lparr>timeAccumulator := Fin False 6917529027641082 (- 60)\<rparr>)) MAX_DT_SECONDS) capSeconds \<and>
   fst (runTicks MAX_DT_SECONDS ((initMain initialState 1000)
       \<lparr>timeAccumulator := Fin False 6917529027641082 (- 60)\<rparr>)) = 5 \<and>
   length (tickStates 0 ((initMain initialState 1000)
       \<lparr>timeAccumulator := Fin False 8070450532247929 (- 57)\<rparr>)) = 5 \<and>
   timeAccumulator (simulationStep (simulationStep (simulationStep (simulationStep (simulationStep
       ((initMain initialState 1000)
          \<lparr>timeAccumulator := Fin False 8070450532247929 (- 57)\<rparr>)))))) =
     Fin False 6917529027641074 (- 60) \<and>
   timeAccumulator (frameStep MAX_DT_SECONDS inputBurst ((initMain initialState 1000)
       \<lparr>timeAccumulator := Fin False 6917529027641082 (- 60)\<rparr>)) = dzero"
proof -
  let ?m = "(initMain initialState 1000)\<lparr>timeAccumulator := Fin False 6917529027641082 (- 60)\<rparr>"
  have sum: "dadd (timeAccumulator ?m) MAX_DT_SECONDS = Fin False 8070450532247929 (- 57)"
    by (simp add: stall_after_16_ms)
  have above: "dgt (dadd (timeAccumulator ?m) MAX_DT_SECONDS) capSeconds"
    unfolding sum by (simp add: capSeconds_eq arith_eval)
  have left: "timeAccumulator (simulationStep (simulationStep (simulationStep (simulationStep
      (simulationStep (?m\<lparr>timeAccumulator := Fin False 8070450532247929 (- 57)\<rparr>)))))) =
      Fin False 6917529027641074 (- 60)"
    by (simp add: timeAccumulator_simulationStep left_of_stall)
  from step_cap[OF above, of inputBurst] above left show ?thesis
    by (simp add: stall_after_16_ms)
qed

text \<open>
  At the cap itself the comparison is not strict enough for five ticks: from an empty
  accumulator a delta of \<^verbatim>\<open>MAX_DT_SECONDS\<close> makes four ticks, since 0.05 less four times
  0.01 is 0.009999999999999997 in doubles, and that is carried over.
\<close>

lemma stall_from_zero:
  "fst (runTicks MAX_DT_SECONDS (initMain p t0)) = 4 \<and>
   timeAccumulator (snd (runTicks MAX_DT_SECONDS (initMain p t0))) =
     Fin False 5764607523034233 (- 59)"
  by (simp add: initMain_def initialState_def lit_eval prog_eval arith_eval)

end
